theory Spec2Isabelle
  imports Main "HOL-Library.AList" "HOL-Library.Char_ord" "HOL-Library.List_Lexorder"
    "HOL-Library.Code_Target_Nat"
begin

section \<open>The coverage scanner of scripts/coverage.py\<close>

text \<open>
  The script is one linear pipeline over two directories: it collects the
  \<open>module\<close>/\<open>function\<close> declarations of the source files into the dictionary
  \<open>items\<close>, correlates the \<open>module test_...\<close> lines of the test files with it
  (dictionaries \<open>covered\<close> and \<open>uncovered\<close>), and prints a report.

  A directory is modelled by what \<open>os.listdir\<close> and \<open>readlines\<close> return: the
  list of its files in enumeration order, each a name and its list of lines (a line
  keeps its terminator). A character is a code point below 256. A Python dictionary is
  an association list in insertion order with distinct keys (\<open>AList.update\<close> is
  \<open>d[k] = v\<close>, \<open>AList.delete\<close> is \<open>del d[k]\<close>, \<open>map_of\<close> is the lookup).
  Standard output is the list of printed lines. An unhandled exception ends the run
  and is returned next to what was printed before it. Failures of the file system
  itself (a missing directory, an unreadable file) are outside the model.
\<close>

subsection \<open>Python string operations\<close>

definition startswith :: "string \<Rightarrow> string \<Rightarrow> bool" where
  "startswith s p = (take (length p) s = p)"

definition endswith :: "string \<Rightarrow> string \<Rightarrow> bool" where
  "endswith s p = (length p \<le> length s \<and> drop (length s - length p) s = p)"

text \<open>\<open>str.isspace\<close> on the code points below 256.\<close>

definition is_space :: "char \<Rightarrow> bool" where
  "is_space c = (c \<in> set [CHR 0x09, CHR 0x0A, CHR 0x0B, CHR 0x0C, CHR 0x0D,
                           CHR 0x1C, CHR 0x1D, CHR 0x1E, CHR 0x1F, CHR 0x20,
                           CHR 0x85, CHR 0xA0])"

definition strip :: "string \<Rightarrow> string" where
  "strip s = rev (dropWhile is_space (rev (dropWhile is_space s)))"

text \<open>\<open>s.split(c)[0]\<close>: the text before the first \<open>c\<close>, all of \<open>s\<close> without one.\<close>

definition split_head :: "char \<Rightarrow> string \<Rightarrow> string" where
  "split_head c s = takeWhile (\<lambda>x. x \<noteq> c) s"

text \<open>\<open>s.split(c, 1)\<close>: at most one split, at the first \<open>c\<close>.\<close>

definition split_once :: "char \<Rightarrow> string \<Rightarrow> string list" where
  "split_once c s =
     (case dropWhile (\<lambda>x. x \<noteq> c) s of
        [] \<Rightarrow> [s]
      | _ # r \<Rightarrow> [takeWhile (\<lambda>x. x \<noteq> c) s, r])"

datatype py_error = ZeroDivisionError | IndexError | KeyError

definition index :: "'a list \<Rightarrow> nat \<Rightarrow> py_error + 'a" where
  "index xs i = (if i < length xs then Inr (xs ! i) else Inl IndexError)"

text \<open>\<open>line[n:].strip().split("(")[0].strip()\<close>\<close>

definition extract_name :: "nat \<Rightarrow> string \<Rightarrow> string" where
  "extract_name n line = strip (split_head (CHR ''('') (strip (drop n line)))"

subsection \<open>Formatting numbers\<close>

fun digits :: "nat \<Rightarrow> string" where
  "digits n = (if n < 10 then [''0123456789'' ! n]
               else digits (n div 10) @ [''0123456789'' ! (n mod 10)])"

declare digits.simps [simp del]

text \<open>Rounding the quotient \<open>a / b\<close> to the nearest natural number, ties to even.\<close>

definition round_half_even :: "nat \<Rightarrow> nat \<Rightarrow> nat" where
  "round_half_even a b =
     (let q = a div b; r = a mod b
      in if 2 * r < b then q
         else if b < 2 * r then q + 1
         else if even q then q else q + 1)"

fun bitlen :: "nat \<Rightarrow> nat" where
  "bitlen n = (if n = 0 then 0 else Suc (bitlen (n div 2)))"

declare bitlen.simps [simp del]

text \<open>
  The double nearest to a natural number (53 significant bits, ties to even). The
  exponent range is not modelled: the numbers converted are lengths of dictionaries held
  in memory, far below \<open>2 ^ 1023\<close>.
\<close>

definition float_of_nat :: "nat \<Rightarrow> nat" where
  "float_of_nat n =
     (if bitlen n \<le> 53 then n
      else let s = bitlen n - 53 in round_half_even n (2 ^ s) * 2 ^ s)"

text \<open>
  The double nearest to \<open>a / b\<close> for \<open>b > 0\<close>, as a fraction (numerator, denominator)
  whose denominator is a power of two: with \<open>e\<close> the exponent for which
  \<open>2 ^ 52 \<le> a / (b * 2 ^ e) < 2 ^ 53\<close>, the quotient is rounded to a multiple of
  \<open>2 ^ e\<close>.
\<close>

definition float_div :: "nat \<Rightarrow> nat \<Rightarrow> nat \<times> nat" where
  "float_div a b =
     (if a = 0 then (0, 1)
      else
        let k = int (bitlen a) - int (bitlen b);
            l = (if 0 \<le> k then (if b * 2 ^ nat k \<le> a then k else k - 1)
                 else (if b \<le> a * 2 ^ nat (- k) then k else k - 1));
            e = l - 52
        in if 0 \<le> e then (round_half_even a (b * 2 ^ nat e) * 2 ^ nat e, 1)
           else (round_half_even (a * 2 ^ nat (- e)) b, 2 ^ nat (- e)))"

text \<open>\<open>100.0 * covitems / totitems\<close> in double arithmetic, for \<open>totitems > 0\<close>.\<close>

definition percentage :: "nat \<Rightarrow> nat \<Rightarrow> nat \<times> nat" where
  "percentage covitems totitems =
     float_div (float_of_nat (100 * float_of_nat covitems)) (float_of_nat totitems)"

text \<open>
  \<open>f"{x:.2f}"\<close> for a double \<open>x \<ge> 0\<close> given as a fraction: the exact value is rounded to
  hundredths, ties to even.
\<close>

definition format_2f :: "nat \<times> nat \<Rightarrow> string" where
  "format_2f x =
     (let h = round_half_even (100 * fst x) (snd x)
      in digits (h div 100) @ ''.'' @ digits (h mod 100 div 10) @ digits (h mod 10))"

subsection \<open>The declaration collector\<close>

datatype item_type = Module | Function

fun item_type_str :: "item_type \<Rightarrow> string" where
  "item_type_str Module = ''module''"
| "item_type_str Function = ''function''"

text \<open>\<open>item_type.capitalize()\<close> on the two values \<open>item_type\<close> takes.\<close>

fun capitalize :: "item_type \<Rightarrow> string" where
  "capitalize Module = ''Module''"
| "capitalize Function = ''Function''"

type_synonym entry = "string \<times> nat \<times> item_type"
type_synonym registry = "(string \<times> entry) list"
type_synonym scad_file = "string \<times> string list"

text \<open>\<open>enumerate(f.readlines())\<close>\<close>

definition enumerate_lines :: "string list \<Rightarrow> (nat \<times> string) list" where
  "enumerate_lines ls = zip [0 ..< length ls] ls"

definition redefined_warning :: "item_type \<Rightarrow> string \<Rightarrow> string \<Rightarrow> nat \<Rightarrow> entry \<Rightarrow> string list" where
  "redefined_warning item_type itemname filename linenum prev =
     [''WARNING!!! '' @ capitalize item_type @ '' '' @ itemname @ '' re-defined at ''
        @ filename @ '':'' @ digits (linenum + 1),
      ''           Previously defined at '' @ fst prev @ '':'' @ digits (fst (snd prev))]"

text \<open>The body of the loop over the lines of a source file (lines 17 to 27).\<close>

definition collect_line :: "string \<Rightarrow> registry \<times> string list \<Rightarrow> nat \<times> string \<Rightarrow> registry \<times> string list" where
  "collect_line filename st x =
     (let items = fst st; out = snd st; linenum = fst x; line = snd x
      in if startswith line ''module '' \<or> startswith line ''function '' then
           let is_module = startswith line ''module '';
               itemname = extract_name (if is_module then 7 else 9) line
           in if startswith itemname ''_'' then (items, out)
              else
                let item_type = (if is_module then Module else Function)
                in case map_of items itemname of
                     Some prev \<Rightarrow>
                       (items, out @ redefined_warning item_type itemname filename linenum prev)
                   | None \<Rightarrow>
                       (AList.update itemname (filename, linenum + 1, item_type) items, out)
         else (items, out))"

fun collect_lines :: "string \<Rightarrow> registry \<times> string list \<Rightarrow> (nat \<times> string) list \<Rightarrow> registry \<times> string list" where
  "collect_lines filename st [] = st"
| "collect_lines filename st (x # xs) = collect_lines filename (collect_line filename st x) xs"

fun collect_files :: "registry \<times> string list \<Rightarrow> scad_file list \<Rightarrow> registry \<times> string list" where
  "collect_files st [] = st"
| "collect_files st (f # fs) =
     collect_files
       (if endswith (fst f) ''.scad''
        then collect_lines (fst f) st (enumerate_lines (snd f))
        else st) fs"

subsection \<open>The test correlator\<close>

text \<open>The state of the second loop: \<open>covered\<close>, \<open>uncovered\<close> and the output so far.\<close>

type_synonym cstate = "registry \<times> registry \<times> string list"

text \<open>A step either goes on, or raises with the output printed before.\<close>

type_synonym 'a result = "(py_error \<times> string list) + 'a"

definition mismatch_warning :: "string \<Rightarrow> entry \<Rightarrow> string \<Rightarrow> nat \<Rightarrow> string list" where
  "mismatch_warning itemname src filename linenum =
     [''WARNING!!! '' @ capitalize (snd (snd src)) @ '' '' @ itemname @ '' defined at ''
        @ fst src @ '':'' @ digits (fst (snd src)),
      ''           but tested at '' @ filename @ '':'' @ digits (linenum + 1)]"

text \<open>The body of the loop over the lines of a test file (lines 36 to 46).\<close>

definition correlate_line :: "string \<Rightarrow> cstate \<Rightarrow> nat \<times> string \<Rightarrow> cstate result" where
  "correlate_line filename st x =
     (let covered = fst st; uncovered = fst (snd st); out = snd (snd st);
          linenum = fst x; line = snd x
      in if startswith line ''module '' then
           let testmodule = extract_name 7 line
           in if startswith testmodule ''test_'' then
                case index (split_once (CHR ''_'') testmodule) 1 of
                  Inl e \<Rightarrow> Inl (e, out)
                | Inr itemname \<Rightarrow>
                    (case map_of uncovered itemname of
                       Some src \<Rightarrow>
                         let src_filename = fst src;
                             out' = (if filename \<noteq> ''test_'' @ src_filename
                                     then out @ mismatch_warning itemname src filename linenum
                                     else out)
                         in Inr (AList.update itemname (filename, linenum + 1, snd (snd src)) covered,
                                 AList.delete itemname uncovered,
                                 out')
                     | None \<Rightarrow> Inr st)
              else Inr st
         else Inr st)"

fun correlate_lines :: "string \<Rightarrow> cstate \<Rightarrow> (nat \<times> string) list \<Rightarrow> cstate result" where
  "correlate_lines filename st [] = Inr st"
| "correlate_lines filename st (x # xs) =
     (case correlate_line filename st x of
        Inl e \<Rightarrow> Inl e
      | Inr st' \<Rightarrow> correlate_lines filename st' xs)"

fun correlate_files :: "cstate \<Rightarrow> scad_file list \<Rightarrow> cstate result" where
  "correlate_files st [] = Inr st"
| "correlate_files st (f # fs) =
     (if startswith (fst f) ''test_'' \<and> endswith (fst f) ''.scad'' then
        case correlate_lines (fst f) st (enumerate_lines (snd f)) of
          Inl e \<Rightarrow> Inl e
        | Inr st' \<Rightarrow> correlate_files st' fs
      else correlate_files st fs)"

subsection \<open>The report printer\<close>

type_synonym groups = "(string \<times> (string \<times> item_type) list) list"

text \<open>The body of the loop that builds \<open>uncovered_by_file\<close> (lines 50 to 53).\<close>

definition group_item :: "registry \<Rightarrow> groups \<Rightarrow> string \<Rightarrow> py_error + groups" where
  "group_item uncovered uncovered_by_file itemname =
     (case map_of uncovered itemname of
        None \<Rightarrow> Inl KeyError
      | Some e \<Rightarrow>
          let filename = fst e;
              ubf = (if filename \<notin> set (map fst uncovered_by_file)
                     then AList.update filename [] uncovered_by_file
                     else uncovered_by_file)
          in (case map_of ubf filename of
                None \<Rightarrow> Inl KeyError
              | Some fileitems \<Rightarrow>
                  Inr (AList.update filename (fileitems @ [(itemname, snd (snd e))]) ubf)))"

fun group_items :: "registry \<Rightarrow> groups \<Rightarrow> string list \<Rightarrow> py_error + groups" where
  "group_items uncovered ubf [] = Inr ubf"
| "group_items uncovered ubf (n # ns) =
     (case group_item uncovered ubf n of
        Inl e \<Rightarrow> Inl e
      | Inr ubf' \<Rightarrow> group_items uncovered ubf' ns)"

text \<open>\<open>mostest\<close>: the pairs (count, file name), in the order of the groups.\<close>

definition mostest :: "groups \<Rightarrow> (nat \<times> string) list" where
  "mostest uncovered_by_file = map (\<lambda>g. (length (snd g), fst g)) uncovered_by_file"

definition group_lines :: "nat \<Rightarrow> string \<Rightarrow> (string \<times> item_type) list \<Rightarrow> string list" where
  "group_lines cnt filename fileitems =
     (''  '' @ filename @ '': '' @ digits cnt @ '' uncovered items'')
     # map (\<lambda>i. ''    '' @ item_type_str (snd i) @ '' '' @ fst i) fileitems"

text \<open>The loop over \<open>sorted(mostest, key=operator.itemgetter(0))\<close> (lines 60 to 64).\<close>

fun print_groups :: "groups \<Rightarrow> string list \<Rightarrow> (nat \<times> string) list \<Rightarrow> string list result" where
  "print_groups ubf out [] = Inr out"
| "print_groups ubf out (m # ms) =
     (case map_of ubf (snd m) of
        None \<Rightarrow> Inl (KeyError, out)
      | Some fileitems \<Rightarrow> print_groups ubf (out @ group_lines (fst m) (snd m) fileitems) ms)"

definition total_line :: "nat \<Rightarrow> nat \<Rightarrow> string" where
  "total_line covitems totitems =
     ''Total coverage: '' @ digits covitems @ '' of '' @ digits totitems @ '' items (''
       @ format_2f (percentage covitems totitems) @ ''%)''"

text \<open>Lines 48 to 71: the report, from the three dictionaries and the output so far.\<close>

definition report :: "registry \<Rightarrow> registry \<Rightarrow> registry \<Rightarrow> string list \<Rightarrow> string list result" where
  "report items covered uncovered out =
     (case group_items uncovered [] (sort (map fst uncovered)) of
        Inl e \<Rightarrow> Inl (e, out)
      | Inr uncovered_by_file \<Rightarrow>
          (case print_groups uncovered_by_file (out @ [''NOT COVERED:''])
                  (sort_key fst (mostest uncovered_by_file)) of
             Inl e \<Rightarrow> Inl e
           | Inr out' \<Rightarrow>
               let totitems = length (map fst items); covitems = length covered
               in if totitems = 0 then Inl (ZeroDivisionError, out')
                  else Inr (out' @ [total_line covitems totitems])))"

subsection \<open>The whole script\<close>

text \<open>The state after the first loop, and after the second.\<close>

definition collected :: "scad_file list \<Rightarrow> registry \<times> string list" where
  "collected src = collect_files ([], []) src"

definition correlated :: "scad_file list \<Rightarrow> scad_file list \<Rightarrow> cstate result" where
  "correlated src tests =
     correlate_files ([], fst (collected src), snd (collected src)) tests"

text \<open>
  A run on the listings of \<open>SRC_DIR\<close> and \<open>TEST_DIR\<close>: \<open>Inr\<close> the lines printed by a
  run that ends normally, \<open>Inl\<close> the exception that ends it and the lines printed before.
\<close>

definition run :: "scad_file list \<Rightarrow> scad_file list \<Rightarrow> string list result" where
  "run src tests =
     (case correlated src tests of
        Inl e \<Rightarrow> Inl e
      | Inr st \<Rightarrow> report (fst (collected src)) (fst st) (fst (snd st)) (snd (snd st)))"

subsection \<open>Example directories\<close>

text \<open>\<open>readlines\<close> on a file whose lines all end with a line feed.\<close>

definition text_lines :: "string list \<Rightarrow> string list" where
  "text_lines ls = map (\<lambda>l. l @ [CHR 0x0A]) ls"

text \<open>\<open>module box\<close> on line 3 and \<open>function area\<close> on line 10.\<close>

definition shapes_scad :: scad_file where
  "shapes_scad = (''shapes.scad'', text_lines
     [''// shapes'',
      [],
      ''module box(size) {'',
      ''  cube(size);'',
      ''}'',
      [],
      ''// the area of a rectangle'',
      ''// w: width, h: height'',
      [],
      ''function area(w, h) = w * h;''])"

text \<open>\<open>module test_box\<close> on line 2.\<close>

definition test_lines :: "string list" where
  "test_lines = text_lines
     [''include <../src/shapes.scad>'',
      ''module test_box() {'',
      ''  box(1);'',
      ''}'']"

definition test_shapes_scad :: scad_file where
  "test_shapes_scad = (''test_shapes.scad'', test_lines)"

definition test_other_scad :: scad_file where
  "test_other_scad = (''test_other.scad'', test_lines)"

text \<open>A second definition of \<open>box\<close>, on line 1.\<close>

definition extra_scad :: scad_file where
  "extra_scad = (''extra.scad'', text_lines [''module box(a, b) { cube([a, b, 1]); }''])"

text \<open>A private function, an unnamed module, and the test module for the empty name.\<close>

definition internal_scad :: scad_file where
  "internal_scad = (''internal.scad'', text_lines
     [''function _internal(x) = x + 1;'',
      ''module (size) { }'',
      ''module zed() { }'',
      ''function abc() = 1;''])"

definition test_internal_scad :: scad_file where
  "test_internal_scad = (''test_internal.scad'', text_lines
     [''module test_foo_bar() { }'',
      ''module test_() { }''])"

subsection \<open>Vocabulary of the properties\<close>

text \<open>
  A declaration line of a source file, the identifier it declares and its kind, as the
  first loop reads them (lines 17 to 22).
\<close>

definition qualifies :: "string \<Rightarrow> bool" where
  "qualifies line = (startswith line ''module '' \<or> startswith line ''function '')"

definition declared_name :: "string \<Rightarrow> string" where
  "declared_name line = extract_name (if startswith line ''module '' then 7 else 9) line"

definition declared_type :: "string \<Rightarrow> item_type" where
  "declared_type line = (if startswith line ''module '' then Module else Function)"

text \<open>
  The module name a line of a test file declares, when the line starts with \<open>module\<close>
  and the name with \<open>test_\<close> (lines 36 to 38).
\<close>

definition test_module :: "string \<Rightarrow> string option" where
  "test_module line =
     (if startswith line ''module '' \<and> startswith (extract_name 7 line) ''test_''
      then Some (extract_name 7 line) else None)"

text \<open>
  The states the first loop goes through: the empty registry with nothing printed, and
  the state after the loop body has run on one more line of some file.
\<close>

inductive collecting :: "registry \<times> string list \<Rightarrow> bool" where
  start: "collecting ([], [])"
| line: "collecting st \<Longrightarrow> collecting (collect_line filename st x)"

text \<open>The names of a dictionary, in insertion order.\<close>

definition keys :: "('k \<times> 'v) list \<Rightarrow> 'k list" where
  "keys d = map fst d"

text \<open>
  What holds of every state of the first loop: the names of the registry are distinct,
  none starts with an underscore, and nothing has been printed while the registry is
  empty.
\<close>

definition collect_inv :: "registry \<times> string list \<Rightarrow> bool" where
  "collect_inv st =
     (distinct (keys (fst st)) \<and> (\<forall>k \<in> set (keys (fst st)). \<not> startswith k ''_'')
      \<and> (fst st = [] \<longrightarrow> snd st = []))"

text \<open>
  What holds of every state of the second loop: the names of \<open>covered\<close> and of
  \<open>uncovered\<close> are distinct, no name is in both, and together they are the names of
  the registry.
\<close>

definition partition_inv :: "registry \<Rightarrow> cstate \<Rightarrow> bool" where
  "partition_inv items st =
     (distinct (keys (fst st)) \<and> distinct (keys (fst (snd st)))
      \<and> set (keys (fst st)) \<inter> set (keys (fst (snd st))) = {}
      \<and> set (keys (fst st)) \<union> set (keys (fst (snd st))) = set (keys items))"

text \<open>
  What holds of \<open>uncovered_by_file\<close> while the names are grouped, with \<open>done\<close> the
  names already grouped and \<open>todo\<close> the names still to come: the file names are distinct,
  the grouped names are the names done, no group is empty, the names of each group
  ascend and are below the names to come, and each item of a group is an uncovered item
  of the group's file.
\<close>

definition groups_inv :: "registry \<Rightarrow> groups \<Rightarrow> string set \<Rightarrow> string list \<Rightarrow> bool" where
  "groups_inv uncovered ubf done todo =
     (distinct (keys ubf)
      \<and> (\<Union>g \<in> set ubf. fst ` set (snd g)) = done
      \<and> (\<forall>g \<in> set ubf. snd g \<noteq> [] \<and> sorted_wrt (<) (map fst (snd g))
            \<and> (\<forall>i \<in> set (snd g). (\<forall>m \<in> set todo. fst i < m)
                  \<and> (\<exists>l. map_of uncovered (fst i) = Some (fst g, l, snd i)))))"

text \<open>The lines printed for one group, and the groups in the order they are printed.\<close>

definition group_block :: "string \<times> (string \<times> item_type) list \<Rightarrow> string list" where
  "group_block g = group_lines (length (snd g)) (fst g) (snd g)"

definition printed_groups :: "groups \<Rightarrow> groups" where
  "printed_groups ubf = sort_key (\<lambda>g. length (snd g)) ubf"

text \<open>The groups of the report of a dictionary \<open>uncovered\<close>, in the order they are printed.\<close>

definition report_groups :: "registry \<Rightarrow> groups" where
  "report_groups uncovered =
     (case group_items uncovered [] (sort (map fst uncovered)) of
        Inl e \<Rightarrow> []
      | Inr ubf \<Rightarrow> printed_groups ubf)"

text \<open>\<open>enumerate(ls, n)\<close>: the lines numbered from \<open>n\<close>.\<close>

definition enumerate_from :: "nat \<Rightarrow> string list \<Rightarrow> (nat \<times> string) list" where
  "enumerate_from n ls = zip [n ..< n + length ls] ls"

section \<open>Properties\<close>

subsection \<open>Strings\<close>

lemma startswith_append: "startswith (p @ r) p"
  by (simp add: startswith_def)

lemma startswith_iff: "startswith s p \<longleftrightarrow> (\<exists>r. s = p @ r)"
proof
  assume "startswith s p"
  then have "s = p @ drop (length p) s"
    by (metis append_take_drop_id startswith_def)
  then show "\<exists>r. s = p @ r" ..
next
  assume "\<exists>r. s = p @ r"
  then show "startswith s p"
    by (auto simp: startswith_def)
qed

lemma startswith_drop: "startswith s p \<Longrightarrow> s = p @ drop (length p) s"
  by (metis append_take_drop_id startswith_def)

lemma not_space_paren: "\<not> is_space (CHR ''('')"
  by (simp add: is_space_def)

lemma rstrip_keep:
  assumes "\<not> is_space c"
  shows "\<exists>r'. rev (dropWhile is_space (rev (p @ c # r))) = p @ c # r'"
proof (cases "\<forall>x \<in> set (rev r). is_space x")
  case True
  then have "dropWhile is_space (rev r @ c # rev p) = c # rev p"
    using assms by (simp add: dropWhile_append)
  then show ?thesis by simp
next
  case False
  then have "dropWhile is_space (rev r @ c # rev p) = dropWhile is_space (rev r) @ c # rev p"
    by (auto simp: dropWhile_append)
  then show ?thesis by simp
qed

text \<open>
  The name before a parenthesis: with \<open>n\<close> characters of marker in front, the extracted
  identifier of \<open>marker name(...\<close> is the name, when the name has no parenthesis and
  no white space at its ends.
\<close>

lemma extract_name_paren:
  assumes "length pre = n" and "CHR ''('' \<notin> set nm" and "strip nm = nm"
    and "nm = [] \<or> \<not> is_space (hd nm)"
  shows "extract_name n (pre @ nm @ CHR ''('' # r) = nm"
proof -
  have d: "drop n (pre @ nm @ CHR ''('' # r) = nm @ CHR ''('' # r"
    using assms(1) by simp
  have l: "dropWhile is_space (nm @ CHR ''('' # r) = nm @ CHR ''('' # r"
    using assms(4) not_space_paren by (cases nm) auto
  obtain r' where r: "rev (dropWhile is_space (rev (nm @ CHR ''('' # r))) = nm @ CHR ''('' # r'"
    using rstrip_keep [OF not_space_paren] by blast
  have s: "strip (nm @ CHR ''('' # r) = nm @ CHR ''('' # r'"
    unfolding strip_def l by (rule r)
  have "split_head (CHR ''('') (nm @ CHR ''('' # r') = nm"
    using assms(2) by (simp add: split_head_def takeWhile_append)
  then show ?thesis
    unfolding extract_name_def d s by (simp add: assms(3))
qed

lemma strip_all_space:
  assumes "\<forall>c \<in> set s. is_space c"
  shows "strip s = []"
proof -
  have a: "dropWhile is_space s = []"
    using assms dropWhile_eq_Nil_conv by blast
  show ?thesis
    unfolding strip_def a by simp
qed

lemma extract_name_blank:
  assumes "length pre = n" and "\<forall>c \<in> set r. is_space c"
  shows "extract_name n (pre @ r) = []"
proof -
  have a: "drop n (pre @ r) = r"
    using assms(1) by simp
  have b: "strip r = []"
    using assms(2) by (rule strip_all_space)
  have c: "split_head (CHR ''('') [] = []"
    by (simp add: split_head_def)
  have d: "strip [] = []"
    by (simp add: strip_def)
  show ?thesis
    unfolding extract_name_def a b c d by (rule refl)
qed

text \<open>
  \<open>testmodule.split("_", 1)[1]\<close> on a name that starts with \<open>test_\<close>: the first
  underscore is the one of the prefix, so the item is the name without its first five
  characters, and the index is in range.
\<close>

lemma split_once_test:
  "index (split_once (CHR ''_'') (''test_'' @ r)) 1 = Inr r"
  by (simp add: split_once_def index_def)

lemma split_once_startswith:
  assumes "startswith testmodule ''test_''"
  shows "index (split_once (CHR ''_'') testmodule) 1 = Inr (drop 5 testmodule)"
proof -
  have e: "length ''test_'' = 5"
    by simp
  have "testmodule = ''test_'' @ drop (length ''test_'') testmodule"
    using startswith_drop [OF assms] .
  then have "testmodule = ''test_'' @ drop 5 testmodule"
    unfolding e .
  then show ?thesis
    using split_once_test by metis
qed

subsection \<open>The declaration collector\<close>

lemma collect_line_eq:
  "collect_line filename (items, out) (linenum, line) =
     (if \<not> qualifies line \<or> startswith (declared_name line) ''_'' then (items, out)
      else case map_of items (declared_name line) of
             Some prev \<Rightarrow>
               (items, out @ redefined_warning (declared_type line) (declared_name line)
                               filename linenum prev)
           | None \<Rightarrow>
               (AList.update (declared_name line) (filename, linenum + 1, declared_type line)
                  items, out))"
  by (auto simp: collect_line_def qualifies_def declared_name_def declared_type_def Let_def
      split: option.split)

lemma keys_update_new:
  "map_of d k = None \<Longrightarrow> keys (AList.update k v d) = keys d @ [k]"
  by (simp add: keys_def update_keys map_of_eq_None_iff image_iff)

lemma map_of_keys: "map_of d k \<noteq> None \<longleftrightarrow> k \<in> set (keys d)"
  by (simp add: keys_def map_of_eq_None_iff)

lemma map_of_None_keys: "map_of d k = None \<longleftrightarrow> k \<notin> set (keys d)"
  by (simp add: keys_def map_of_eq_None_iff)

lemma collect_line_inv:
  assumes "collect_inv st"
  shows "collect_inv (collect_line filename st x)"
proof -
  obtain items out where st: "st = (items, out)" by (cases st)
  obtain linenum line where x: "x = (linenum, line)" by (cases x)
  show ?thesis
  proof (cases "\<not> qualifies line \<or> startswith (declared_name line) ''_''")
    case True
    then show ?thesis
      using assms by (simp add: st x collect_line_eq)
  next
    case False
    show ?thesis
    proof (cases "map_of items (declared_name line)")
      case None
      have new: "declared_name line \<notin> set (keys items)"
        using None by (simp add: map_of_None_keys)
      have eq: "collect_line filename st x =
          (AList.update (declared_name line) (filename, linenum + 1, declared_type line) items, out)"
        using False None by (simp add: st x collect_line_eq)
      have "collect_inv
          (AList.update (declared_name line) (filename, linenum + 1, declared_type line) items, out)"
        using assms False new unfolding collect_inv_def st
        by (auto simp: keys_update_new [OF None])
      then show ?thesis
        unfolding eq .
    next
      case (Some prev)
      then have "items \<noteq> []" by auto
      then show ?thesis
        using assms False Some
        by (simp add: st x collect_line_eq collect_inv_def)
    qed
  qed
qed

lemma collecting_inv: "collecting st \<Longrightarrow> collect_inv st"
proof (induction rule: collecting.induct)
  case start
  show ?case by (simp add: collect_inv_def keys_def)
next
  case (line st filename x)
  then show ?case by (simp add: collect_line_inv)
qed

lemma collecting_lines: "collecting st \<Longrightarrow> collecting (collect_lines filename st xs)"
proof (induction xs arbitrary: st)
  case Nil
  then show ?case by simp
next
  case (Cons x xs)
  have "collecting (collect_line filename st x)"
    using Cons.prems by (rule collecting.line)
  then show ?case
    using Cons.IH by simp
qed

lemma collecting_files: "collecting st \<Longrightarrow> collecting (collect_files st fs)"
  by (induction fs arbitrary: st) (simp_all add: collecting_lines)

lemma collecting_collected: "collecting (collected src)"
  unfolding collected_def by (rule collecting_files [OF collecting.start])

lemma collected_inv: "collect_inv (collected src)"
  by (rule collecting_inv [OF collecting_collected])

subsection \<open>The test correlator\<close>

text \<open>
  The loop body never raises: the index 1 is always in range, because the split is made
  on a name that starts with \<open>test_\<close>.
\<close>

lemma correlate_line_eq:
  "correlate_line filename (covered, uncovered, out) (linenum, line) =
     Inr (case test_module line of
            None \<Rightarrow> (covered, uncovered, out)
          | Some testmodule \<Rightarrow>
              (case map_of uncovered (drop 5 testmodule) of
                 None \<Rightarrow> (covered, uncovered, out)
               | Some src \<Rightarrow>
                   (AList.update (drop 5 testmodule) (filename, linenum + 1, snd (snd src)) covered,
                    AList.delete (drop 5 testmodule) uncovered,
                    if filename \<noteq> ''test_'' @ fst src
                    then out @ mismatch_warning (drop 5 testmodule) src filename linenum
                    else out)))"
proof (cases "startswith line ''module '' \<and> startswith (extract_name 7 line) ''test_''")
  case False
  then show ?thesis
    by (auto simp: correlate_line_def test_module_def Let_def)
next
  case True
  then have i: "index (split_once (CHR ''_'') (extract_name 7 line)) 1
      = Inr (drop 5 (extract_name 7 line))"
    using split_once_startswith by blast
  have t: "test_module line = Some (extract_name 7 line)"
    using True by (simp add: test_module_def)
  show ?thesis
    using True unfolding correlate_line_def Let_def fst_conv snd_conv t i
    by (simp split: option.split)
qed

lemma keys_delete: "keys (AList.delete k d) = removeAll k (keys d)"
  by (simp add: keys_def delete_keys)

lemma map_of_Some_keys: "map_of d k = Some v \<Longrightarrow> k \<in> set (keys d)"
  using map_of_keys [of d k] by simp

lemma correlate_line_inv:
  assumes "partition_inv items st" and "correlate_line filename st x = Inr st'"
  shows "partition_inv items st'"
proof -
  obtain covered uncovered out where st: "st = (covered, uncovered, out)"
    by (cases st) auto
  obtain linenum line where x: "x = (linenum, line)" by (cases x)
  show ?thesis
  proof (cases "test_module line")
    case None
    then have "st' = st"
      using assms(2) by (simp add: st x correlate_line_eq)
    then show ?thesis using assms(1) by simp
  next
    case (Some testmodule)
    show ?thesis
    proof (cases "map_of uncovered (drop 5 testmodule)")
      case None
      then have "st' = st"
        using assms(2) Some by (simp add: st x correlate_line_eq)
      then show ?thesis using assms(1) by simp
    next
      case (Some src)
      let ?k = "drop 5 testmodule"
      have ku: "?k \<in> set (keys uncovered)"
        using Some by (rule map_of_Some_keys)
      then have kc: "?k \<notin> set (keys covered)"
        using assms(1) by (auto simp: partition_inv_def st)
      then have nc: "map_of covered ?k = None"
        by (simp add: map_of_None_keys)
      obtain out' where st': "st' = (AList.update ?k (filename, linenum + 1, snd (snd src)) covered,
          AList.delete ?k uncovered, out')"
        using assms(2) \<open>test_module line = Some testmodule\<close> Some
        by (auto simp: st x correlate_line_eq)
      show ?thesis
        using assms(1) ku kc unfolding st' partition_inv_def st
        by (auto simp: keys_update_new [OF nc] keys_delete distinct_removeAll)
    qed
  qed
qed

lemma correlate_line_total: "\<exists>st'. correlate_line filename st x = Inr st'"
proof -
  obtain covered uncovered out where st: "st = (covered, uncovered, out)"
    by (cases st) auto
  obtain linenum line where x: "x = (linenum, line)" by (cases x)
  show ?thesis
    unfolding st x correlate_line_eq by blast
qed

lemma correlate_lines_inv:
  "partition_inv items st \<Longrightarrow>
     \<exists>st'. correlate_lines filename st xs = Inr st' \<and> partition_inv items st'"
proof (induction xs arbitrary: st)
  case Nil
  then show ?case by simp
next
  case (Cons x xs)
  obtain st1 where s1: "correlate_line filename st x = Inr st1"
    using correlate_line_total by blast
  have "partition_inv items st1"
    using Cons.prems s1 by (rule correlate_line_inv)
  then show ?case
    using Cons.IH s1 by simp
qed

lemma correlate_files_inv:
  "partition_inv items st \<Longrightarrow>
     \<exists>st'. correlate_files st fs = Inr st' \<and> partition_inv items st'"
proof (induction fs arbitrary: st)
  case Nil
  then show ?case by simp
next
  case (Cons f fs)
  show ?case
  proof (cases "startswith (fst f) ''test_'' \<and> endswith (fst f) ''.scad''")
    case True
    obtain st1 where s1: "correlate_lines (fst f) st (enumerate_lines (snd f)) = Inr st1"
      and i1: "partition_inv items st1"
      using correlate_lines_inv [OF Cons.prems] by blast
    show ?thesis
      using Cons.IH [OF i1] s1 True by simp
  next
    case False
    then show ?thesis
      using Cons.IH [OF Cons.prems] by auto
  qed
qed

lemma correlated_inv:
  "\<exists>st. correlated src tests = Inr st \<and> partition_inv (fst (collected src)) st"
proof -
  have "distinct (keys (fst (collected src)))"
    using collected_inv [of src] by (simp add: collect_inv_def)
  then have "partition_inv (fst (collected src)) ([], fst (collected src), snd (collected src))"
    by (simp add: partition_inv_def keys_def)
  then show ?thesis
    unfolding correlated_def by (rule correlate_files_inv)
qed

lemma partition_inv_length:
  assumes "partition_inv items (covered, uncovered, out)" and "distinct (keys items)"
  shows "length covered + length uncovered = length items"
proof -
  have "length covered = card (set (keys covered))"
    using assms(1) by (simp add: partition_inv_def distinct_card) (simp add: keys_def)
  moreover have "length uncovered = card (set (keys uncovered))"
    using assms(1) by (simp add: partition_inv_def distinct_card) (simp add: keys_def)
  moreover have "length items = card (set (keys items))"
    using assms(2) by (simp add: distinct_card) (simp add: keys_def)
  moreover have "card (set (keys covered) \<union> set (keys uncovered))
      = card (set (keys covered)) + card (set (keys uncovered))"
    using assms(1) by (intro card_Un_disjoint) (simp_all add: partition_inv_def)
  ultimately show ?thesis
    using assms(1) by (simp add: partition_inv_def)
qed

subsection \<open>The report printer\<close>

lemma set_update_distinct:
  "distinct (map fst d) \<Longrightarrow> set (AList.update k v d) = {p \<in> set d. fst p \<noteq> k} \<union> {(k, v)}"
  by (induction d) (auto simp: rev_image_eqI)

lemma group_item_eq:
  assumes "map_of uncovered n = Some e"
  shows "group_item uncovered ubf n =
     Inr (AList.update (fst e)
            ((case map_of ubf (fst e) of None \<Rightarrow> [] | Some fileitems \<Rightarrow> fileitems)
               @ [(n, snd (snd e))]) ubf)"
proof (cases "map_of ubf (fst e)")
  case None
  then have "fst e \<notin> set (map fst ubf)"
    by (simp add: map_of_eq_None_iff)
  then show ?thesis
    using assms None by (simp add: group_item_def Let_def update_conv')
next
  case (Some fileitems)
  then have "fst e \<in> set (map fst ubf)"
    by (metis map_of_eq_None_iff option.distinct(1) set_map)
  then show ?thesis
    using assms Some by (simp add: group_item_def Let_def)
qed

lemma map_of_distinct_keys:
  "distinct (keys d) \<Longrightarrow> (k, v) \<in> set d \<Longrightarrow> map_of d k = Some v"
  by (simp add: keys_def)

lemma group_item_inv:
  assumes inv: "groups_inv uncovered ubf done (n # ns)"
    and srt: "sorted_wrt (<) (n # ns)"
    and lk: "map_of uncovered n = Some e"
  shows "\<exists>ubf'. group_item uncovered ubf n = Inr ubf'
           \<and> groups_inv uncovered ubf' (insert n done) ns"
proof -
  let ?k = "fst e"
  define old where "old = (case map_of ubf ?k of None \<Rightarrow> [] | Some fileitems \<Rightarrow> fileitems)"
  let ?new = "old @ [(n, snd (snd e))]"
  let ?ubf' = "AList.update ?k ?new ubf"
  have d: "distinct (map fst ubf)"
    using inv by (simp add: groups_inv_def keys_def)
  have s: "set ?ubf' = {p \<in> set ubf. fst p \<noteq> ?k} \<union> {(?k, ?new)}"
    using d by (rule set_update_distinct)
  have old_in: "old = [] \<or> (?k, old) \<in> set ubf"
    unfolding old_def by (cases "map_of ubf ?k") (auto dest: map_of_SomeD)
  have old_only: "(?k, v) \<in> set ubf \<Longrightarrow> v = old" for v
    using d unfolding old_def
    by (cases "map_of ubf ?k") (auto simp: map_of_eq_None_iff rev_image_eqI)
  have nlt: "\<forall>m \<in> set ns. n < m"
    using srt by simp
  have grp: "snd g \<noteq> [] \<and> sorted_wrt (<) (map fst (snd g))
      \<and> (\<forall>i \<in> set (snd g). fst i < n \<and> (\<forall>m \<in> set ns. fst i < m)
            \<and> (\<exists>l. map_of uncovered (fst i) = Some (fst g, l, snd i)))"
    if "g \<in> set ubf" for g
    using inv that by (simp add: groups_inv_def)
  have old_all: "sorted_wrt (<) (map fst old)
      \<and> (\<forall>i \<in> set old. fst i < n \<and> (\<forall>m \<in> set ns. fst i < m)
            \<and> (\<exists>l. map_of uncovered (fst i) = Some (?k, l, snd i)))"
  proof (cases "old = []")
    case True
    then show ?thesis by simp
  next
    case False
    then have "(?k, old) \<in> set ubf"
      using old_in by simp
    from grp [OF this] show ?thesis by simp
  qed
  have old_lt: "\<forall>i \<in> set old. fst i < n"
    using old_all by blast
  have old_sorted: "sorted_wrt (<) (map fst old)"
    using old_all by blast
  have old_items: "\<forall>i \<in> set old. (\<forall>m \<in> set ns. fst i < m)
      \<and> (\<exists>l. map_of uncovered (fst i) = Some (?k, l, snd i))"
    using old_all by blast
  have new_sorted: "sorted_wrt (<) (map fst ?new)"
    using old_sorted old_lt by (simp add: sorted_wrt_append)
  have e: "e = (?k, fst (snd e), snd (snd e))"
    by simp
  have new_items: "\<forall>i \<in> set ?new. (\<forall>m \<in> set ns. fst i < m)
      \<and> (\<exists>l. map_of uncovered (fst i) = Some (?k, l, snd i))"
    using old_items nlt lk e by (metis (no_types, lifting) Un_iff empty_iff empty_set fst_conv
        insert_iff list.simps(15) set_append snd_conv)
  have c1: "distinct (keys ?ubf')"
    using d by (simp add: keys_def distinct_update)
  have c2: "(\<Union>g \<in> set ?ubf'. fst ` set (snd g)) = insert n done"
  proof -
    have "(\<Union>g \<in> set ubf. fst ` set (snd g)) = done"
      using inv by (simp add: groups_inv_def)
    moreover have "(\<Union>g \<in> set ubf. fst ` set (snd g))
        = (\<Union>g \<in> {p \<in> set ubf. fst p \<noteq> ?k}. fst ` set (snd g)) \<union> fst ` set old"
    proof (rule set_eqI, rule iffI)
      fix x
      assume "x \<in> (\<Union>g \<in> set ubf. fst ` set (snd g))"
      then obtain g where g: "g \<in> set ubf" "x \<in> fst ` set (snd g)" by blast
      show "x \<in> (\<Union>g \<in> {p \<in> set ubf. fst p \<noteq> ?k}. fst ` set (snd g)) \<union> fst ` set old"
      proof (cases "fst g = ?k")
        case True
        then have "snd g = old"
          using old_only [of "snd g"] g(1) by (metis prod.collapse)
        then show ?thesis using g(2) by simp
      next
        case False
        then show ?thesis using g by blast
      qed
    next
      fix x
      assume "x \<in> (\<Union>g \<in> {p \<in> set ubf. fst p \<noteq> ?k}. fst ` set (snd g)) \<union> fst ` set old"
      then show "x \<in> (\<Union>g \<in> set ubf. fst ` set (snd g))"
        using old_in by force
    qed
    ultimately show ?thesis
      unfolding s by auto
  qed
  have c3: "\<forall>g \<in> set ?ubf'. snd g \<noteq> [] \<and> sorted_wrt (<) (map fst (snd g))
      \<and> (\<forall>i \<in> set (snd g). (\<forall>m \<in> set ns. fst i < m)
            \<and> (\<exists>l. map_of uncovered (fst i) = Some (fst g, l, snd i)))"
  proof
    fix g
    assume "g \<in> set ?ubf'"
    then consider "g \<in> set ubf" | "g = (?k, ?new)"
      unfolding s by blast
    then show "snd g \<noteq> [] \<and> sorted_wrt (<) (map fst (snd g))
      \<and> (\<forall>i \<in> set (snd g). (\<forall>m \<in> set ns. fst i < m)
            \<and> (\<exists>l. map_of uncovered (fst i) = Some (fst g, l, snd i)))"
    proof cases
      case 1
      from grp [OF this] show ?thesis by blast
    next
      case 2
      then show ?thesis
        using new_sorted new_items by simp
    qed
  qed
  have "groups_inv uncovered ?ubf' (insert n done) ns"
    unfolding groups_inv_def using c1 c2 c3 by blast
  then show ?thesis
    using group_item_eq [OF lk] unfolding old_def by simp
qed

lemma group_items_inv:
  assumes "groups_inv uncovered ubf done ns" and "sorted_wrt (<) ns"
    and "set ns \<subseteq> set (keys uncovered)"
  shows "\<exists>ubf'. group_items uncovered ubf ns = Inr ubf'
           \<and> groups_inv uncovered ubf' (done \<union> set ns) []"
  using assms
proof (induction ns arbitrary: ubf "done")
  case Nil
  then show ?case by simp
next
  case (Cons n ns)
  have "n \<in> set (keys uncovered)"
    using Cons.prems(3) by simp
  then obtain e where e: "map_of uncovered n = Some e"
    using map_of_keys [of uncovered n] by auto
  obtain ubf1 where u1: "group_item uncovered ubf n = Inr ubf1"
    and i1: "groups_inv uncovered ubf1 (insert n done) ns"
    using group_item_inv [OF Cons.prems(1) Cons.prems(2) e] by blast
  have s1: "sorted_wrt (<) ns"
    using Cons.prems(2) by simp
  have k1: "set ns \<subseteq> set (keys uncovered)"
    using Cons.prems(3) by simp
  obtain ubf' where "group_items uncovered ubf1 ns = Inr ubf'"
    and "groups_inv uncovered ubf' (insert n done \<union> set ns) []"
    using Cons.IH [OF i1 s1 k1] by blast
  then show ?case
    using u1 by simp
qed

lemma grouped:
  assumes "distinct (keys uncovered)"
  shows "\<exists>ubf. group_items uncovered [] (sort (map fst uncovered)) = Inr ubf
           \<and> groups_inv uncovered ubf (set (keys uncovered)) []"
proof -
  have a: "groups_inv uncovered [] {} (sort (keys uncovered))"
    by (simp add: groups_inv_def keys_def)
  have b: "sorted_wrt (<) (sort (keys uncovered))"
    using assms by (simp add: strict_sorted_iff)
  have c: "set (sort (keys uncovered)) \<subseteq> set (keys uncovered)"
    by simp
  show ?thesis
    using group_items_inv [OF a b c] by (simp add: keys_def)
qed

lemma insort_key_map:
  "insort_key f (h x) (map h xs) = map h (insort_key (\<lambda>y. f (h y)) x xs)"
  by (induction xs) simp_all

lemma sort_key_map: "sort_key f (map h xs) = map h (sort_key (\<lambda>y. f (h y)) xs)"
  by (induction xs) (simp_all add: insort_key_map)

lemma sorted_mostest: "sort_key fst (mostest ubf) = mostest (printed_groups ubf)"
  by (simp add: mostest_def printed_groups_def sort_key_map)

text \<open>Printing never misses a group: every file name of \<open>mostest\<close> is a key.\<close>

lemma print_groups_eq:
  assumes "distinct (keys ubf)" and "set gs \<subseteq> set ubf"
  shows "print_groups ubf out (mostest gs) = Inr (out @ concat (map group_block gs))"
  using assms(2)
proof (induction gs arbitrary: out)
  case Nil
  then show ?case by (simp add: mostest_def)
next
  case (Cons g gs)
  have "(fst g, snd g) \<in> set ubf"
    using Cons.prems by simp
  then have l: "map_of ubf (fst g) = Some (snd g)"
    using assms(1) by (rule map_of_distinct_keys [rotated])
  have "print_groups ubf (out @ group_block g) (mostest gs)
      = Inr ((out @ group_block g) @ concat (map group_block gs))"
    using Cons by simp
  then show ?case
    using l unfolding group_block_def by (simp add: mostest_def)
qed

text \<open>
  The report, for any three dictionaries of which \<open>uncovered\<close> has distinct names: the
  header, the blocks of the groups in printing order, and the aggregate line unless
  the registry is empty.
\<close>

lemma report_eq:
  assumes "distinct (keys uncovered)"
  shows "\<exists>ubf. groups_inv uncovered ubf (set (keys uncovered)) []
     \<and> report_groups uncovered = printed_groups ubf
     \<and> report items covered uncovered out =
        (if length items = 0
         then Inl (ZeroDivisionError,
                   out @ [''NOT COVERED:''] @ concat (map group_block (printed_groups ubf)))
         else Inr (out @ [''NOT COVERED:''] @ concat (map group_block (printed_groups ubf))
                   @ [total_line (length covered) (length items)]))"
proof -
  obtain ubf where g: "group_items uncovered [] (sort (map fst uncovered)) = Inr ubf"
    and i: "groups_inv uncovered ubf (set (keys uncovered)) []"
    using grouped [OF assms] by blast
  have d: "distinct (keys ubf)"
    using i by (simp add: groups_inv_def)
  have "set (printed_groups ubf) \<subseteq> set ubf"
    by (simp add: printed_groups_def)
  then have p: "print_groups ubf (out @ [''NOT COVERED:'']) (sort_key fst (mostest ubf))
      = Inr ((out @ [''NOT COVERED:'']) @ concat (map group_block (printed_groups ubf)))"
    unfolding sorted_mostest using d by (rule print_groups_eq [rotated])
  have "report items covered uncovered out =
        (if length items = 0
         then Inl (ZeroDivisionError,
                   out @ [''NOT COVERED:''] @ concat (map group_block (printed_groups ubf)))
         else Inr (out @ [''NOT COVERED:''] @ concat (map group_block (printed_groups ubf))
                   @ [total_line (length covered) (length items)]))"
    by (simp add: report_def g p Let_def)
  moreover have "report_groups uncovered = printed_groups ubf"
    by (simp add: report_groups_def g)
  ultimately show ?thesis
    using i by blast
qed

subsection \<open>The whole script\<close>

text \<open>
  Every run gets through the two loops and the grouping without an exception; what it
  prints, and whether it ends in the division by zero, is decided by the registry alone.
\<close>

lemma run_eq:
  "\<exists>covered uncovered out ubf.
     correlated src tests = Inr (covered, uncovered, out)
     \<and> partition_inv (fst (collected src)) (covered, uncovered, out)
     \<and> groups_inv uncovered ubf (set (keys uncovered)) []
     \<and> report_groups uncovered = printed_groups ubf
     \<and> run src tests =
        (if length (fst (collected src)) = 0
         then Inl (ZeroDivisionError,
                   out @ [''NOT COVERED:''] @ concat (map group_block (printed_groups ubf)))
         else Inr (out @ [''NOT COVERED:''] @ concat (map group_block (printed_groups ubf))
                   @ [total_line (length covered) (length (fst (collected src)))]))"
proof -
  obtain st where c: "correlated src tests = Inr st"
    and p: "partition_inv (fst (collected src)) st"
    using correlated_inv by blast
  obtain covered uncovered out where st: "st = (covered, uncovered, out)"
    by (cases st) auto
  have "distinct (keys uncovered)"
    using p by (simp add: partition_inv_def st)
  then obtain ubf where g: "groups_inv uncovered ubf (set (keys uncovered)) []"
    and rg: "report_groups uncovered = printed_groups ubf"
    and r: "report (fst (collected src)) covered uncovered out =
        (if length (fst (collected src)) = 0
         then Inl (ZeroDivisionError,
                   out @ [''NOT COVERED:''] @ concat (map group_block (printed_groups ubf)))
         else Inr (out @ [''NOT COVERED:''] @ concat (map group_block (printed_groups ubf))
                   @ [total_line (length covered) (length (fst (collected src)))]))"
    using report_eq by blast
  have "run src tests = report (fst (collected src)) covered uncovered out"
    by (simp add: run_def c st)
  then show ?thesis
    using c p g rg r unfolding st by metis
qed

lemma groups_inv_empty:
  assumes "groups_inv uncovered ubf {} []"
  shows "ubf = []"
proof (cases ubf)
  case Nil
  then show ?thesis .
next
  case (Cons g gs)
  then have "snd g \<noteq> []" and "fst ` set (snd g) \<subseteq> {}"
    using assms by (auto simp: groups_inv_def)
  then show ?thesis
    by (cases "snd g") auto
qed

text \<open>With nothing uncovered, the second loop changes nothing and prints nothing.\<close>

lemma correlate_lines_nothing:
  "correlate_lines filename (covered, [], out) xs = Inr (covered, [], out)"
proof (induction xs)
  case Nil
  show ?case by simp
next
  case (Cons x xs)
  obtain linenum line where x: "x = (linenum, line)" by (cases x)
  have "correlate_line filename (covered, [], out) x = Inr (covered, [], out)"
    unfolding x correlate_line_eq by (simp split: option.split)
  then show ?case
    using Cons by simp
qed

lemma correlate_files_nothing:
  "correlate_files (covered, [], out) fs = Inr (covered, [], out)"
  by (induction fs) (simp_all add: correlate_lines_nothing)

subsection \<open>Lines that do not count\<close>

lemma enumerate_lines_from: "enumerate_lines ls = enumerate_from 0 ls"
  by (simp add: enumerate_lines_def enumerate_from_def)

lemma enumerate_from_Nil: "enumerate_from n [] = []"
  by (simp add: enumerate_from_def)

lemma enumerate_from_Cons: "enumerate_from n (x # xs) = (n, x) # enumerate_from (Suc n) xs"
  by (simp add: enumerate_from_def upt_conv_Cons del: upt_Suc)

lemma enumerate_from_append:
  "enumerate_from n (xs @ ys) = enumerate_from n xs @ enumerate_from (n + length xs) ys"
  by (induction xs arbitrary: n) (simp_all add: enumerate_from_Nil enumerate_from_Cons)

lemma collect_lines_append:
  "collect_lines filename st (xs @ ys) = collect_lines filename (collect_lines filename st xs) ys"
  by (induction xs arbitrary: st) simp_all

lemma collect_lines_skip:
  assumes "\<forall>l \<in> set ls. \<not> qualifies l"
  shows "collect_lines filename st (enumerate_from n ls) = st"
  using assms
proof (induction ls arbitrary: n)
  case Nil
  show ?case by (simp add: enumerate_from_Nil)
next
  case (Cons l ls)
  obtain items out where st: "st = (items, out)" by (cases st)
  have "collect_line filename st (n, l) = st"
    using Cons.prems by (simp add: st collect_line_eq)
  then show ?case
    using Cons by (simp add: enumerate_from_Cons)
qed

lemma correlate_lines_append:
  "correlate_lines filename st xs = Inr st1 \<Longrightarrow>
     correlate_lines filename st (xs @ ys) = correlate_lines filename st1 ys"
  by (induction xs arbitrary: st) (auto split: sum.splits)

lemma correlate_lines_skip:
  assumes "\<forall>l \<in> set ls. test_module l = None"
  shows "correlate_lines filename st (enumerate_from n ls) = Inr st"
  using assms
proof (induction ls arbitrary: n)
  case Nil
  show ?case by (simp add: enumerate_from_Nil)
next
  case (Cons l ls)
  obtain covered uncovered out where st: "st = (covered, uncovered, out)"
    by (cases st) auto
  have "correlate_line filename st (n, l) = Inr st"
    using Cons.prems by (simp add: st correlate_line_eq)
  then show ?case
    using Cons by (simp add: enumerate_from_Cons)
qed

lemma module_paren:
  assumes "CHR ''('' \<notin> set nm" and "strip nm = nm" and "nm = [] \<or> \<not> is_space (hd nm)"
  shows "qualifies (''module '' @ nm @ CHR ''('' # r)"
    and "declared_name (''module '' @ nm @ CHR ''('' # r) = nm"
    and "declared_type (''module '' @ nm @ CHR ''('' # r) = Module"
    and "extract_name 7 (''module '' @ nm @ CHR ''('' # r) = nm"
proof -
  have s: "startswith (''module '' @ nm @ CHR ''('' # r) ''module ''"
    by (rule startswith_append)
  have "length ''module '' = 7"
    by simp
  then show e: "extract_name 7 (''module '' @ nm @ CHR ''('' # r) = nm"
    using assms by (rule extract_name_paren)
  show "qualifies (''module '' @ nm @ CHR ''('' # r)"
    unfolding qualifies_def using s by blast
  show "declared_name (''module '' @ nm @ CHR ''('' # r) = nm"
    unfolding declared_name_def using s e by simp
  show "declared_type (''module '' @ nm @ CHR ''('' # r) = Module"
    unfolding declared_type_def using s by simp
qed

lemma function_paren:
  assumes "CHR ''('' \<notin> set nm" and "strip nm = nm" and "nm = [] \<or> \<not> is_space (hd nm)"
  shows "qualifies (''function '' @ nm @ CHR ''('' # r)"
    and "declared_name (''function '' @ nm @ CHR ''('' # r) = nm"
    and "declared_type (''function '' @ nm @ CHR ''('' # r) = Function"
proof -
  have s: "startswith (''function '' @ nm @ CHR ''('' # r) ''function ''"
    by (rule startswith_append)
  have n: "\<not> startswith (''function '' @ nm @ CHR ''('' # r) ''module ''"
    by (simp add: startswith_def)
  have "length ''function '' = 9"
    by simp
  then have e: "extract_name 9 (''function '' @ nm @ CHR ''('' # r) = nm"
    using assms by (rule extract_name_paren)
  show "qualifies (''function '' @ nm @ CHR ''('' # r)"
    unfolding qualifies_def using s by blast
  show "declared_name (''function '' @ nm @ CHR ''('' # r) = nm"
    unfolding declared_name_def using n e by simp
  show "declared_type (''function '' @ nm @ CHR ''('' # r) = Function"
    unfolding declared_type_def using n by simp
qed

subsection \<open>Names that stay\<close>

text \<open>
  A name once in the registry stays there, so the name of every declaration line of a
  source file that does not start with an underscore is in the registry after the
  first loop.
\<close>

lemma keys_update: "set (keys (AList.update k v d)) = insert k (set (keys d))"
  by (simp add: keys_def dom_update)

lemma collect_line_keys:
  "set (keys (fst st)) \<subseteq> set (keys (fst (collect_line filename st x)))"
proof -
  obtain items out where st: "st = (items, out)" by (cases st)
  obtain linenum line where x: "x = (linenum, line)" by (cases x)
  show ?thesis
    unfolding st x collect_line_eq by (auto simp: keys_update split: option.split)
qed

lemma collect_lines_keys:
  "set (keys (fst st)) \<subseteq> set (keys (fst (collect_lines filename st xs)))"
proof (induction xs arbitrary: st)
  case Nil
  show ?case by simp
next
  case (Cons x xs)
  show ?case
    using collect_line_keys [of st filename x] Cons [of "collect_line filename st x"] by auto
qed

lemma collect_files_keys:
  "set (keys (fst st)) \<subseteq> set (keys (fst (collect_files st fs)))"
proof (induction fs arbitrary: st)
  case Nil
  show ?case by simp
next
  case (Cons f fs)
  show ?case
    using collect_lines_keys [of st "fst f" "enumerate_lines (snd f)"]
      Cons [of "collect_lines (fst f) st (enumerate_lines (snd f))"] Cons [of st]
    by auto
qed

lemma collect_line_registers:
  assumes "qualifies line" and "\<not> startswith (declared_name line) ''_''"
  shows "declared_name line \<in> set (keys (fst (collect_line filename st (linenum, line))))"
proof -
  obtain items out where st: "st = (items, out)" by (cases st)
  show ?thesis
  proof (cases "map_of items (declared_name line)")
    case None
    then show ?thesis
      using assms by (simp add: st collect_line_eq keys_update_new)
  next
    case (Some prev)
    then have "declared_name line \<in> set (keys items)"
      by (rule map_of_Some_keys)
    then show ?thesis
      using assms Some by (simp add: st collect_line_eq)
  qed
qed

lemma collect_lines_registers:
  assumes "(linenum, line) \<in> set xs"
    and "qualifies line" and "\<not> startswith (declared_name line) ''_''"
  shows "declared_name line \<in> set (keys (fst (collect_lines filename st xs)))"
  using assms(1)
proof (induction xs arbitrary: st)
  case Nil
  then show ?case by simp
next
  case (Cons x xs)
  show ?case
  proof (cases "x = (linenum, line)")
    case True
    have "declared_name line \<in> set (keys (fst (collect_line filename st x)))"
      unfolding True using assms(2,3) by (rule collect_line_registers)
    then show ?thesis
      using collect_lines_keys [of "collect_line filename st x" filename xs] by auto
  next
    case False
    then have "(linenum, line) \<in> set xs"
      using Cons.prems by simp
    then show ?thesis
      using Cons.IH by simp
  qed
qed

lemma enumerate_lines_mem:
  assumes "line \<in> set ls"
  shows "\<exists>linenum. (linenum, line) \<in> set (enumerate_lines ls)"
proof -
  have "map snd (enumerate_lines ls) = ls"
    by (simp add: enumerate_lines_def)
  then have "line \<in> snd ` set (enumerate_lines ls)"
    using assms by (metis set_map)
  then show ?thesis
    by auto
qed

lemma collect_files_registers:
  assumes "(f, ls) \<in> set fs" and "endswith f ''.scad''" and "line \<in> set ls"
    and "qualifies line" and "\<not> startswith (declared_name line) ''_''"
  shows "declared_name line \<in> set (keys (fst (collect_files st fs)))"
  using assms(1)
proof (induction fs arbitrary: st)
  case Nil
  then show ?case by simp
next
  case (Cons g fs)
  show ?case
  proof (cases "g = (f, ls)")
    case True
    obtain linenum where "(linenum, line) \<in> set (enumerate_lines ls)"
      using enumerate_lines_mem [OF assms(3)] by blast
    then have "declared_name line
        \<in> set (keys (fst (collect_lines f st (enumerate_lines ls))))"
      using assms(4,5) by (rule collect_lines_registers)
    then show ?thesis
      using collect_files_keys [of "collect_lines f st (enumerate_lines ls)" fs] assms(2)
      by (auto simp: True)
  next
    case False
    then have "(f, ls) \<in> set fs"
      using Cons.prems by simp
    then show ?thesis
      using Cons.IH by simp
  qed
qed

lemma collected_registers:
  assumes "(f, ls) \<in> set src" and "endswith f ''.scad''" and "line \<in> set ls"
    and "qualifies line" and "\<not> startswith (declared_name line) ''_''"
  shows "declared_name line \<in> set (keys (fst (collected src)))"
  unfolding collected_def using assms by (rule collect_files_registers)

text \<open>
  A name once in \<open>covered\<close> stays there, so a name of the registry that is the target
  of a test module of a test file is in \<open>covered\<close> after the second loop.
\<close>

lemma correlate_line_covered:
  assumes "correlate_line filename st x = Inr st'"
  shows "set (keys (fst st)) \<subseteq> set (keys (fst st'))"
proof -
  obtain covered uncovered out where st: "st = (covered, uncovered, out)"
    by (cases st) auto
  obtain linenum line where x: "x = (linenum, line)" by (cases x)
  show ?thesis
    using assms unfolding st x correlate_line_eq
    by (auto simp: keys_update split: option.splits)
qed

lemma correlate_lines_covered:
  assumes "correlate_lines filename st xs = Inr st'"
  shows "set (keys (fst st)) \<subseteq> set (keys (fst st'))"
  using assms
proof (induction xs arbitrary: st)
  case Nil
  then show ?case by simp
next
  case (Cons x xs)
  obtain st1 where s1: "correlate_line filename st x = Inr st1"
    using correlate_line_total by blast
  then have "correlate_lines filename st1 xs = Inr st'"
    using Cons.prems by simp
  then have "set (keys (fst st1)) \<subseteq> set (keys (fst st'))"
    by (rule Cons.IH)
  then show ?case
    using correlate_line_covered [OF s1] by auto
qed

lemma correlate_files_covered:
  assumes "correlate_files st fs = Inr st'"
  shows "set (keys (fst st)) \<subseteq> set (keys (fst st'))"
  using assms
proof (induction fs arbitrary: st)
  case Nil
  then show ?case by simp
next
  case (Cons f fs)
  show ?case
  proof (cases "startswith (fst f) ''test_'' \<and> endswith (fst f) ''.scad''")
    case True
    obtain st1 where s1: "correlate_lines (fst f) st (enumerate_lines (snd f)) = Inr st1"
      using Cons.prems True by (auto split: sum.splits)
    then have "correlate_files st1 fs = Inr st'"
      using Cons.prems True by simp
    then have "set (keys (fst st1)) \<subseteq> set (keys (fst st'))"
      by (rule Cons.IH)
    then show ?thesis
      using correlate_lines_covered [OF s1] by auto
  next
    case False
    then have "correlate_files st fs = Inr st'"
      using Cons.prems by auto
    then show ?thesis
      by (rule Cons.IH)
  qed
qed

lemma correlate_line_covers:
  assumes "partition_inv items st" and "test_module line = Some testmodule"
    and "drop 5 testmodule \<in> set (keys items)"
    and "correlate_line filename st (linenum, line) = Inr st'"
  shows "drop 5 testmodule \<in> set (keys (fst st'))"
proof -
  obtain covered uncovered out where st: "st = (covered, uncovered, out)"
    by (cases st) auto
  show ?thesis
  proof (cases "map_of uncovered (drop 5 testmodule)")
    case None
    then have "drop 5 testmodule \<notin> set (keys uncovered)"
      by (simp add: map_of_None_keys)
    then have "drop 5 testmodule \<in> set (keys covered)"
      using assms(1,3) by (auto simp: partition_inv_def st)
    then show ?thesis
      using correlate_line_covered [OF assms(4)] by (auto simp: st)
  next
    case (Some src)
    then show ?thesis
      using assms(2,4) unfolding st correlate_line_eq
      by (auto simp: keys_update)
  qed
qed

lemma correlate_lines_covers:
  assumes "(linenum, line) \<in> set xs" and "test_module line = Some testmodule"
    and "drop 5 testmodule \<in> set (keys items)"
  shows "partition_inv items st \<Longrightarrow> correlate_lines filename st xs = Inr st' \<Longrightarrow>
     drop 5 testmodule \<in> set (keys (fst st'))"
  using assms(1)
proof (induction xs arbitrary: st)
  case Nil
  then show ?case by simp
next
  case (Cons x xs)
  obtain st1 where s1: "correlate_line filename st x = Inr st1"
    using correlate_line_total by blast
  have i1: "partition_inv items st1"
    using Cons.prems(1) s1 by (rule correlate_line_inv)
  have r: "correlate_lines filename st1 xs = Inr st'"
    using Cons.prems(2) s1 by simp
  show ?case
  proof (cases "x = (linenum, line)")
    case True
    have "drop 5 testmodule \<in> set (keys (fst st1))"
      using Cons.prems(1) assms(2,3) s1 unfolding True by (rule correlate_line_covers)
    then show ?thesis
      using correlate_lines_covered [OF r] by auto
  next
    case False
    then have "(linenum, line) \<in> set xs"
      using Cons.prems(3) by simp
    with i1 r show ?thesis
      by (rule Cons.IH)
  qed
qed

lemma correlate_files_covers:
  assumes "(f, ls) \<in> set fs" and "startswith f ''test_''" and "endswith f ''.scad''"
    and "line \<in> set ls" and "test_module line = Some testmodule"
    and "drop 5 testmodule \<in> set (keys items)"
  shows "partition_inv items st \<Longrightarrow> correlate_files st fs = Inr st' \<Longrightarrow>
     drop 5 testmodule \<in> set (keys (fst st'))"
  using assms(1)
proof (induction fs arbitrary: st)
  case Nil
  then show ?case by simp
next
  case (Cons g fs)
  show ?case
  proof (cases "startswith (fst g) ''test_'' \<and> endswith (fst g) ''.scad''")
    case t: True
    obtain st1 where s1: "correlate_lines (fst g) st (enumerate_lines (snd g)) = Inr st1"
      and i1: "partition_inv items st1"
      using correlate_lines_inv [OF Cons.prems(1)] by blast
    have r: "correlate_files st1 fs = Inr st'"
      using Cons.prems(2) t s1 by simp
    show ?thesis
    proof (cases "g = (f, ls)")
      case True
      obtain linenum where "(linenum, line) \<in> set (enumerate_lines ls)"
        using enumerate_lines_mem [OF assms(4)] by blast
      then have "drop 5 testmodule \<in> set (keys (fst st1))"
        using assms(5,6) Cons.prems(1) s1 unfolding True fst_conv snd_conv
        by (rule correlate_lines_covers)
      then show ?thesis
        using correlate_files_covered [OF r] by auto
    next
      case False
      then have "(f, ls) \<in> set fs"
        using Cons.prems(3) by simp
      with i1 r show ?thesis
        by (rule Cons.IH)
    qed
  next
    case False
    then have n: "g \<noteq> (f, ls)"
      using assms(2,3) by auto
    have r: "correlate_files st fs = Inr st'"
      using Cons.prems(2) False by auto
    have "(f, ls) \<in> set fs"
      using Cons.prems(3) n by simp
    with Cons.prems(1) r show ?thesis
      by (rule Cons.IH)
  qed
qed

lemma correlated_covers:
  assumes "(f, ls) \<in> set tests" and "startswith f ''test_''" and "endswith f ''.scad''"
    and "line \<in> set ls" and "test_module line = Some testmodule"
    and "drop 5 testmodule \<in> set (keys (fst (collected src)))"
    and "correlated src tests = Inr st"
  shows "drop 5 testmodule \<in> set (keys (fst st))"
proof -
  have "distinct (keys (fst (collected src)))"
    using collected_inv [of src] by (simp add: collect_inv_def)
  then have "partition_inv (fst (collected src)) ([], fst (collected src), snd (collected src))"
    by (simp add: partition_inv_def keys_def)
  then show ?thesis
    using assms(7) unfolding correlated_def by (rule correlate_files_covers [OF assms(1-6)])
qed

text \<open>A dictionary with the name \<open>k\<close> has one entry more than it has other names.\<close>

lemma length_counts:
  assumes "distinct (keys d)" and "k \<in> set (keys d)"
  shows "length d = Suc (length (filter (\<lambda>x. x \<noteq> k) (keys d)))"
proof -
  have "length (filter (\<lambda>x. x = k) (keys d)) = card ({x. x = k} \<inter> set (keys d))"
    using assms(1) by (rule distinct_length_filter)
  also have "{x. x = k} \<inter> set (keys d) = {k}"
    using assms(2) by auto
  finally have "length (filter (\<lambda>x. x = k) (keys d)) = 1"
    by simp
  moreover have "length (keys d)
      = length (filter (\<lambda>x. x = k) (keys d)) + length (filter (\<lambda>x. \<not> x = k) (keys d))"
    by (simp add: sum_length_filter_compl)
  ultimately show ?thesis
    by (simp add: keys_def)
qed

section \<open>The claims\<close>

subsection \<open>Evaluation of the examples\<close>

lemma collected_shapes:
  "collected [shapes_scad] =
     ([(''box'', ''shapes.scad'', 3, Module), (''area'', ''shapes.scad'', 10, Function)], [])"
  by code_simp

lemma correlated_shapes:
  "correlated [shapes_scad] [test_shapes_scad] =
     Inr ([(''box'', ''test_shapes.scad'', 2, Module)],
          [(''area'', ''shapes.scad'', 10, Function)], [])"
  by code_simp

lemma run_shapes:
  "run [shapes_scad] [test_shapes_scad] =
     Inr [''NOT COVERED:'',
          ''  shapes.scad: 1 uncovered items'',
          ''    function area'',
          ''Total coverage: 1 of 2 items (50.00%)'']"
  by code_simp

lemma collected_nothing:
  "collected [(''notes.txt'', text_lines [''module m() { }'']),
              (''empty.scad'', text_lines [''// nothing'', '' module n() { }''])] = ([], [])"
  by code_simp

subsection \<open>Termination\<close>

text \<open>
  C1: if the registry is empty after the source directory has been scanned, the run ends
  in the division by zero of the aggregate line; if the registry holds a declaration,
  the run ends normally, and the last line it prints is the aggregate line.
\<close>

theorem run_terminates:
  "\<exists>covered uncovered out.
     correlated src tests = Inr (covered, uncovered, out)
     \<and> (\<exists>printed. run src tests =
           (if length (fst (collected src)) = 0
            then Inl (ZeroDivisionError, printed)
            else Inr (printed @ [total_line (length covered) (length (fst (collected src)))])))"
proof -
  obtain covered uncovered out ubf where
    c: "correlated src tests = Inr (covered, uncovered, out)"
    and r: "run src tests =
        (if length (fst (collected src)) = 0
         then Inl (ZeroDivisionError,
                   out @ [''NOT COVERED:''] @ concat (map group_block (printed_groups ubf)))
         else Inr (out @ [''NOT COVERED:''] @ concat (map group_block (printed_groups ubf))
                   @ [total_line (length covered) (length (fst (collected src)))]))"
    using run_eq by blast
  show ?thesis
  proof (cases "length (fst (collected src)) = 0")
    case True
    then show ?thesis using c r by simp
  next
    case False
    then have "run src tests =
        Inr ((out @ [''NOT COVERED:''] @ concat (map group_block (printed_groups ubf)))
             @ [total_line (length covered) (length (fst (collected src)))])"
      using r by simp
    then show ?thesis using c False by auto
  qed
qed

theorem run_terminates_witness:
  "(length (fst (collected [])) = 0 \<and> (\<exists>printed. run [] [] = Inl (ZeroDivisionError, printed)))
   \<and> (length (fst (collected [shapes_scad])) \<noteq> 0
        \<and> (\<exists>printed. run [shapes_scad] [test_shapes_scad]
              = Inr (printed @ [total_line 1 2])))"
proof -
  have a: "length (fst (collected [])) = 0"
    by code_simp
  have b: "length (fst (collected [shapes_scad])) = 2"
    by (simp add: collected_shapes)
  show ?thesis
    using run_terminates [of "[]" "[]"] run_terminates [of "[shapes_scad]" "[test_shapes_scad]"]
    unfolding a b correlated_shapes by auto
qed

text \<open>
  C10: with an empty registry the run prints the header \<open>NOT COVERED:\<close>, and nothing
  else, before it ends in the division by zero.
\<close>

theorem empty_registry_output:
  assumes "fst (collected src) = []"
  shows "run src tests = Inl (ZeroDivisionError, [''NOT COVERED:''])"
proof -
  have "snd (collected src) = []"
    using collected_inv [of src] assms by (simp add: collect_inv_def)
  then have c: "correlated src tests = Inr ([], [], [])"
    using assms by (simp add: correlated_def correlate_files_nothing)
  have "report [] [] [] [] = Inl (ZeroDivisionError, [''NOT COVERED:''])"
    by (simp add: report_def mostest_def)
  then show ?thesis
    using assms by (simp add: run_def c)
qed

theorem empty_registry_output_witness:
  "fst (collected [(''notes.txt'', text_lines [''module m() { }'']),
                   (''empty.scad'', text_lines [''// nothing'', '' module n() { }''])]) = []
   \<and> run [(''notes.txt'', text_lines [''module m() { }'']),
           (''empty.scad'', text_lines [''// nothing'', '' module n() { }''])]
          [test_shapes_scad] = Inl (ZeroDivisionError, [''NOT COVERED:''])"
proof -
  have h: "fst (collected [(''notes.txt'', text_lines [''module m() { }'']),
                   (''empty.scad'', text_lines [''// nothing'', '' module n() { }''])]) = []"
    by (simp add: collected_nothing)
  show ?thesis
    using h empty_registry_output [OF h] by simp
qed

subsection \<open>Covered and uncovered\<close>

text \<open>
  C2: the second loop always completes, and after it the names of \<open>covered\<close> and the
  names of \<open>uncovered\<close> partition the names of the registry: no name is in both, every
  name of the registry is in one of them, and the two counts add up to the total.
\<close>

theorem covered_uncovered_partition:
  "\<exists>covered uncovered out.
     correlated src tests = Inr (covered, uncovered, out)
     \<and> length covered + length uncovered = length (fst (collected src))
     \<and> set (keys covered) \<union> set (keys uncovered) = set (keys (fst (collected src)))
     \<and> set (keys covered) \<inter> set (keys uncovered) = {}"
proof -
  obtain st where c: "correlated src tests = Inr st"
    and p: "partition_inv (fst (collected src)) st"
    using correlated_inv by blast
  obtain covered uncovered out where st: "st = (covered, uncovered, out)"
    by (cases st) auto
  have d: "distinct (keys (fst (collected src)))"
    using collected_inv [of src] by (simp add: collect_inv_def)
  have "length covered + length uncovered = length (fst (collected src))"
    using p d unfolding st by (rule partition_inv_length)
  then show ?thesis
    using c p unfolding st by (auto simp: partition_inv_def)
qed


text \<open>A witness of C2: the shapes example, one name covered and one uncovered.\<close>

theorem covered_uncovered_partition_witness:
  "length [(''box'', ''test_shapes.scad'', 2::nat, Module)]
     + length [(''area'', ''shapes.scad'', 10::nat, Function)]
     = length (fst (collected [shapes_scad]))
   \<and> set (keys [(''box'', ''test_shapes.scad'', 2::nat, Module)])
       \<union> set (keys [(''area'', ''shapes.scad'', 10::nat, Function)])
     = set (keys (fst (collected [shapes_scad])))
   \<and> set (keys [(''box'', ''test_shapes.scad'', 2::nat, Module)])
       \<inter> set (keys [(''area'', ''shapes.scad'', 10::nat, Function)]) = {}"
  using covered_uncovered_partition [of "[shapes_scad]" "[test_shapes_scad]"]
  unfolding correlated_shapes by simp

subsection \<open>The shapes example\<close>

text \<open>
  C3: let \<open>shapes.scad\<close> be the only source file, with a line \<open>module box(\<close>... as line 3,
  a line \<open>function area(\<close>... as line 10 and no other declaration line, and let
  \<open>test_shapes.scad\<close> be the only test file, with a line \<open>module test_box(\<close>... as
  line 2 and no other test module. Then the registry has the two names, \<open>box\<close> is covered
  by the test on line 2, \<open>area\<close> stays uncovered, no warning is printed, and the report
  ends with \<open>Total coverage: 1 of 2 items (50.00%)\<close>.
\<close>

theorem shapes_example:
  assumes "length pre = 2" and "length mid = 6" and "length tpre = 1"
    and "\<forall>l \<in> set (pre @ mid @ post). \<not> qualifies l"
    and "\<forall>l \<in> set (tpre @ tpost). test_module l = None"
  shows "collected
       [(''shapes.scad'',
         pre @ [''module box('' @ a1] @ mid @ [''function area('' @ a2] @ post)] =
     ([(''box'', ''shapes.scad'', 3, Module), (''area'', ''shapes.scad'', 10, Function)], [])
   \<and> correlated
       [(''shapes.scad'',
         pre @ [''module box('' @ a1] @ mid @ [''function area('' @ a2] @ post)]
       [(''test_shapes.scad'', tpre @ [''module test_box('' @ a3] @ tpost)] =
     Inr ([(''box'', ''test_shapes.scad'', 2, Module)],
          [(''area'', ''shapes.scad'', 10, Function)], [])
   \<and> run
       [(''shapes.scad'',
         pre @ [''module box('' @ a1] @ mid @ [''function area('' @ a2] @ post)]
       [(''test_shapes.scad'', tpre @ [''module test_box('' @ a3] @ tpost)] =
     Inr [''NOT COVERED:'',
          ''  shapes.scad: 1 uncovered items'',
          ''    function area'',
          ''Total coverage: 1 of 2 items (50.00%)'']"
proof -
  let ?src = "pre @ [''module box('' @ a1] @ mid @ [''function area('' @ a2] @ post"
  let ?tst = "tpre @ [''module test_box('' @ a3] @ tpost"
  let ?items = "[(''box'', ''shapes.scad'', 3::nat, Module), (''area'', ''shapes.scad'', 10, Function)]"
  have skip: "\<forall>l \<in> set pre. \<not> qualifies l" "\<forall>l \<in> set mid. \<not> qualifies l"
    "\<forall>l \<in> set post. \<not> qualifies l"
    using assms(4) by auto
  have tskip: "\<forall>l \<in> set tpre. test_module l = None" "\<forall>l \<in> set tpost. test_module l = None"
    using assms(5) by auto
  have box: "qualifies (''module '' @ ''box'' @ CHR ''('' # a1)"
    "declared_name (''module '' @ ''box'' @ CHR ''('' # a1) = ''box''"
    "declared_type (''module '' @ ''box'' @ CHR ''('' # a1) = Module"
    by (rule module_paren; simp add: strip_def is_space_def)+
  have area: "qualifies (''function '' @ ''area'' @ CHR ''('' # a2)"
    "declared_name (''function '' @ ''area'' @ CHR ''('' # a2) = ''area''"
    "declared_type (''function '' @ ''area'' @ CHR ''('' # a2) = Function"
    by (rule function_paren; simp add: strip_def is_space_def)+
  have "extract_name 7 (''module '' @ ''test_box'' @ CHR ''('' # a3) = ''test_box''"
    by (rule module_paren; simp add: strip_def is_space_def)
  then have tbox: "test_module (''module test_box('' @ a3) = Some ''test_box''"
    by (simp add: test_module_def startswith_def)
  have u: "\<not> startswith ''box'' ''_''" "\<not> startswith ''area'' ''_''"
    by (simp_all add: startswith_def)
  have e1: "enumerate_from 0 (pre @ ls) = enumerate_from 0 pre @ enumerate_from 2 ls" for ls
    using enumerate_from_append [of 0 pre ls] unfolding assms(1) add_0 .
  have e2: "enumerate_from 2 (l # ls) = (2, l) # enumerate_from 3 ls" for l ls
    by (simp add: enumerate_from_Cons)
  have e3: "enumerate_from 3 (mid @ ls) = enumerate_from 3 mid @ enumerate_from 9 ls" for ls
    using enumerate_from_append [of 3 mid ls] unfolding assms(2) by simp
  have e4: "enumerate_from 9 (l # ls) = (9, l) # enumerate_from 10 ls" for l ls
    by (simp add: enumerate_from_Cons)
  have e: "enumerate_lines ?src =
      enumerate_from 0 pre @ (2, ''module box('' @ a1) # enumerate_from 3 mid
        @ (9, ''function area('' @ a2) # enumerate_from 10 post"
    by (simp only: enumerate_lines_from e1 append_Cons append_Nil e2 e3 e4)
  have s1: "collect_line ''shapes.scad'' ([], []) (2, ''module box('' @ a1)
      = ([(''box'', ''shapes.scad'', 3, Module)], [])"
    using box u by (simp add: collect_line_eq)
  have s2: "collect_line ''shapes.scad'' ([(''box'', ''shapes.scad'', 3, Module)], [])
        (9, ''function area('' @ a2) = (?items, [])"
    using area u by (simp add: collect_line_eq)
  have "collect_lines ''shapes.scad'' ([], []) (enumerate_lines ?src) = (?items, [])"
    by (simp only: e collect_lines_append collect_lines.simps collect_lines_skip [OF skip(1)]
        s1 collect_lines_skip [OF skip(2)] s2 collect_lines_skip [OF skip(3)])
  then have c: "collected [(''shapes.scad'', ?src)] = (?items, [])"
    by (simp add: collected_def endswith_def)
  have f1: "enumerate_from 0 (tpre @ ls) = enumerate_from 0 tpre @ enumerate_from 1 ls" for ls
    using enumerate_from_append [of 0 tpre ls] unfolding assms(3) add_0 .
  have f2: "enumerate_from 1 (l # ls) = (1, l) # enumerate_from 2 ls" for l ls
    by (simp add: enumerate_from_Cons numeral_2_eq_2)
  have te: "enumerate_lines ?tst =
      enumerate_from 0 tpre @ (1, ''module test_box('' @ a3) # enumerate_from 2 tpost"
    by (simp only: enumerate_lines_from f1 append_Cons append_Nil f2)
  have t1: "correlate_line ''test_shapes.scad'' ([], ?items, []) (1, ''module test_box('' @ a3)
      = Inr ([(''box'', ''test_shapes.scad'', 2, Module)],
             [(''area'', ''shapes.scad'', 10, Function)], [])"
    using tbox by (simp add: correlate_line_eq)
  have t0: "correlate_lines ''test_shapes.scad'' ([], ?items, []) (enumerate_from 0 tpre)
      = Inr ([], ?items, [])"
    using tskip(1) by (rule correlate_lines_skip)
  have "correlate_lines ''test_shapes.scad'' ([], ?items, []) (enumerate_lines ?tst) =
      Inr ([(''box'', ''test_shapes.scad'', 2, Module)],
           [(''area'', ''shapes.scad'', 10, Function)], [])"
    by (simp only: te correlate_lines_append [OF t0] correlate_lines.simps t1 sum.case
        correlate_lines_skip [OF tskip(2)])
  then have r: "correlated [(''shapes.scad'', ?src)] [(''test_shapes.scad'', ?tst)] =
      Inr ([(''box'', ''test_shapes.scad'', 2, Module)],
           [(''area'', ''shapes.scad'', 10, Function)], [])"
    using c by (simp add: correlated_def startswith_def endswith_def)
  have "report ?items [(''box'', ''test_shapes.scad'', 2, Module)]
        [(''area'', ''shapes.scad'', 10, Function)] [] =
      Inr [''NOT COVERED:'',
           ''  shapes.scad: 1 uncovered items'',
           ''    function area'',
           ''Total coverage: 1 of 2 items (50.00%)'']"
    by code_simp
  then have "run [(''shapes.scad'', ?src)] [(''test_shapes.scad'', ?tst)] =
      Inr [''NOT COVERED:'',
           ''  shapes.scad: 1 uncovered items'',
           ''    function area'',
           ''Total coverage: 1 of 2 items (50.00%)'']"
    using r c by (simp add: run_def)
  then show ?thesis
    using c r by blast
qed

theorem shapes_example_witness:
  "collected [shapes_scad] =
     ([(''box'', ''shapes.scad'', 3, Module), (''area'', ''shapes.scad'', 10, Function)], [])
   \<and> correlated [shapes_scad] [test_shapes_scad] =
     Inr ([(''box'', ''test_shapes.scad'', 2, Module)],
          [(''area'', ''shapes.scad'', 10, Function)], [])
   \<and> run [shapes_scad] [test_shapes_scad] =
     Inr [''NOT COVERED:'',
          ''  shapes.scad: 1 uncovered items'',
          ''    function area'',
          ''Total coverage: 1 of 2 items (50.00%)'']"
proof -
  define pre where "pre = text_lines [''// shapes'', []]"
  define mid where "mid = text_lines
     [''  cube(size);'', ''}'', [], ''// the area of a rectangle'', ''// w: width, h: height'', []]"
  define tpre where "tpre = text_lines [''include <../src/shapes.scad>'']"
  define tpost where "tpost = text_lines [''  box(1);'', ''}'']"
  define a1 where "a1 = ''size) {'' @ [CHR 0x0A]"
  define a2 where "a2 = ''w, h) = w * h;'' @ [CHR 0x0A]"
  define a3 where "a3 = '') {'' @ [CHR 0x0A]"
  have s: "shapes_scad =
      (''shapes.scad'', pre @ [''module box('' @ a1] @ mid @ [''function area('' @ a2] @ [])"
    by (simp add: shapes_scad_def text_lines_def pre_def mid_def a1_def a2_def)
  have t: "test_shapes_scad = (''test_shapes.scad'', tpre @ [''module test_box('' @ a3] @ tpost)"
    by (simp add: test_shapes_scad_def test_lines_def text_lines_def tpre_def tpost_def a3_def)
  have n: "length pre = 2" "length mid = 6" "length tpre = 1"
    by (simp_all add: pre_def mid_def tpre_def text_lines_def)
  have q: "\<forall>l \<in> set (pre @ mid @ []). \<not> qualifies l"
    by (simp add: pre_def mid_def text_lines_def qualifies_def startswith_def)
  have m: "\<forall>l \<in> set (tpre @ tpost). test_module l = None"
    by (simp add: tpre_def tpost_def text_lines_def test_module_def startswith_def)
  show ?thesis
    unfolding s t using n q m by (rule shapes_example)
qed

subsection \<open>Duplicates and private names\<close>

text \<open>
  C4: in any state of the first loop, a declaration line whose name is already in the
  registry prints the two lines of the duplicate warning, with the file and line of the
  redefinition and the file and line of the first definition, and leaves the registry as
  it is.
\<close>

theorem duplicate_warning:
  assumes "collecting (items, out)" and "qualifies line"
    and "map_of items (declared_name line) = Some prev"
  shows "collect_line filename (items, out) (linenum, line) =
     (items,
      out @ [''WARNING!!! '' @ capitalize (declared_type line) @ '' '' @ declared_name line
               @ '' re-defined at '' @ filename @ '':'' @ digits (linenum + 1),
             ''           Previously defined at '' @ fst prev @ '':'' @ digits (fst (snd prev))])"
proof -
  have "declared_name line \<in> set (keys items)"
    using assms(3) by (rule map_of_Some_keys)
  moreover have "\<forall>k \<in> set (keys items). \<not> startswith k ''_''"
    using collecting_inv [OF assms(1)] by (simp add: collect_inv_def)
  ultimately have "\<not> startswith (declared_name line) ''_''"
    by blast
  then show ?thesis
    using assms(2,3) by (simp add: collect_line_eq redefined_warning_def)
qed

lemma extra_line:
  "qualifies (''module box(a, b) { cube([a, b, 1]); }'' @ [CHR 0x0A])
   \<and> declared_name (''module box(a, b) { cube([a, b, 1]); }'' @ [CHR 0x0A]) = ''box''
   \<and> declared_type (''module box(a, b) { cube([a, b, 1]); }'' @ [CHR 0x0A]) = Module"
  by code_simp

theorem duplicate_warning_witness:
  "collecting ([(''box'', ''shapes.scad'', 3, Module), (''area'', ''shapes.scad'', 10, Function)], [])
   \<and> qualifies (''module box(a, b) { cube([a, b, 1]); }'' @ [CHR 0x0A])
   \<and> map_of [(''box'', ''shapes.scad'', 3::nat, Module), (''area'', ''shapes.scad'', 10, Function)]
        (declared_name (''module box(a, b) { cube([a, b, 1]); }'' @ [CHR 0x0A]))
      = Some (''shapes.scad'', 3, Module)
   \<and> collect_line ''extra.scad''
        ([(''box'', ''shapes.scad'', 3, Module), (''area'', ''shapes.scad'', 10, Function)], [])
        (0, ''module box(a, b) { cube([a, b, 1]); }'' @ [CHR 0x0A])
      = ([(''box'', ''shapes.scad'', 3, Module), (''area'', ''shapes.scad'', 10, Function)],
         [''WARNING!!! Module box re-defined at extra.scad:1'',
          ''           Previously defined at shapes.scad:3''])"
proof -
  let ?items = "[(''box'', ''shapes.scad'', 3::nat, Module), (''area'', ''shapes.scad'', 10, Function)]"
  let ?line = "''module box(a, b) { cube([a, b, 1]); }'' @ [CHR 0x0A]"
  have a: "collecting (?items, [])"
    using collecting_collected [of "[shapes_scad]"] by (simp add: collected_shapes)
  have b: "qualifies ?line"
    using extra_line by simp
  have c: "map_of ?items (declared_name ?line) = Some (''shapes.scad'', 3, Module)"
    using extra_line by simp
  have d1: "digits (0 + 1) = ''1''" and d3: "digits 3 = ''3''"
    by code_simp+
  have "collect_line ''extra.scad'' (?items, []) (0, ?line) =
      (?items, [''WARNING!!! Module box re-defined at extra.scad:1'',
                ''           Previously defined at shapes.scad:3''])"
    using duplicate_warning [OF a b c, of "''extra.scad''" 0] extra_line
    unfolding fst_conv snd_conv d1 d3 by simp
  then show ?thesis
    using a b c by blast
qed


text \<open>
  C5: a declaration line whose identifier starts with an underscore changes nothing and
  prints nothing; no name of the registry, and so no name of \<open>covered\<close> or of
  \<open>uncovered\<close>, the dictionaries the report counts, starts with an underscore.
\<close>

theorem underscore_never_tracked:
  "(qualifies line \<and> startswith (declared_name line) ''_''
      \<longrightarrow> collect_line filename st (linenum, line) = st)
   \<and> (\<forall>k \<in> set (keys (fst (collected src))). \<not> startswith k ''_'')
   \<and> (\<exists>covered uncovered out. correlated src tests = Inr (covered, uncovered, out)
        \<and> (\<forall>k \<in> set (keys covered) \<union> set (keys uncovered). \<not> startswith k ''_''))"
proof -
  obtain items out where st: "st = (items, out)" by (cases st)
  have a: "qualifies line \<and> startswith (declared_name line) ''_''
      \<longrightarrow> collect_line filename st (linenum, line) = st"
    by (simp add: st collect_line_eq)
  have b: "\<forall>k \<in> set (keys (fst (collected src))). \<not> startswith k ''_''"
    using collected_inv [of src] by (simp add: collect_inv_def)
  obtain cst where c: "correlated src tests = Inr cst"
    and p: "partition_inv (fst (collected src)) cst"
    using correlated_inv by blast
  obtain covered uncovered out' where cst: "cst = (covered, uncovered, out')"
    by (cases cst) auto
  have "set (keys covered) \<union> set (keys uncovered) = set (keys (fst (collected src)))"
    using p by (simp add: partition_inv_def cst)
  then have "\<forall>k \<in> set (keys covered) \<union> set (keys uncovered). \<not> startswith k ''_''"
    using b by simp
  then show ?thesis
    using a b c unfolding cst by blast
qed

lemma internal_line:
  "qualifies (''function _internal(x) = x + 1;'' @ [CHR 0x0A])
   \<and> declared_name (''function _internal(x) = x + 1;'' @ [CHR 0x0A]) = ''_internal''
   \<and> startswith ''_internal'' ''_''"
  by code_simp

lemma collected_internal:
  "collected [internal_scad] =
     ([([], ''internal.scad'', 2, Module), (''zed'', ''internal.scad'', 3, Module),
       (''abc'', ''internal.scad'', 4, Function)], [])"
  by code_simp

lemma correlated_internal:
  "correlated [internal_scad] [test_internal_scad] =
     Inr ([([], ''test_internal.scad'', 2, Module)],
          [(''zed'', ''internal.scad'', 3, Module), (''abc'', ''internal.scad'', 4, Function)],
          [])"
  by code_simp

theorem underscore_never_tracked_witness:
  "qualifies (''function _internal(x) = x + 1;'' @ [CHR 0x0A])
   \<and> startswith (declared_name (''function _internal(x) = x + 1;'' @ [CHR 0x0A])) ''_''
   \<and> collect_line ''internal.scad'' ([], []) (0, ''function _internal(x) = x + 1;'' @ [CHR 0x0A])
       = ([], [])
   \<and> \<not> startswith [] ''_'' \<and> \<not> startswith ''zed'' ''_'' \<and> \<not> startswith ''abc'' ''_''"
proof -
  have h: "qualifies (''function _internal(x) = x + 1;'' @ [CHR 0x0A])
      \<and> startswith (declared_name (''function _internal(x) = x + 1;'' @ [CHR 0x0A])) ''_''"
    using internal_line by simp
  have k: "set (keys (fst (collected [internal_scad]))) = {[], ''zed'', ''abc''}"
    by (simp add: collected_internal keys_def)
  show ?thesis
    using h underscore_never_tracked [of "''function _internal(x) = x + 1;'' @ [CHR 0x0A]"
        "''internal.scad''" "([], [])" 0 "[internal_scad]" "[test_internal_scad]"]
    unfolding k by blast
qed

subsection \<open>Tests and their targets\<close>

text \<open>
  C6: for a line of a test file that declares a module whose name starts with \<open>test_\<close>,
  the split at the first underscore, which is the underscore of that prefix, gives two
  parts, and the target is the second, the whole name after \<open>test_\<close>. It is the name
  the loop body looks up: in any state, the body leaves the state as it is when the
  target is not uncovered, and otherwise records the target in \<open>covered\<close>, with the file
  and line of the test and the kind of the declaration, and deletes it from \<open>uncovered\<close>.
\<close>

theorem test_target:
  assumes "test_module line = Some testmodule"
  shows "testmodule = ''test_'' @ drop 5 testmodule
     \<and> split_once (CHR ''_'') testmodule = [''test'', drop 5 testmodule]
     \<and> index (split_once (CHR ''_'') testmodule) 1 = Inr (drop 5 testmodule)
     \<and> correlate_line filename (covered, uncovered, out) (linenum, line) =
         Inr (case map_of uncovered (drop 5 testmodule) of
                None \<Rightarrow> (covered, uncovered, out)
              | Some src \<Rightarrow>
                  (AList.update (drop 5 testmodule) (filename, linenum + 1, snd (snd src))
                     covered,
                   AList.delete (drop 5 testmodule) uncovered,
                   if filename = ''test_'' @ fst src then out
                   else out @ mismatch_warning (drop 5 testmodule) src filename linenum))"
proof -
  have s: "startswith testmodule ''test_''"
    using assms by (auto simp: test_module_def split: if_splits)
  have e: "length ''test_'' = 5"
    by simp
  have "testmodule = ''test_'' @ drop (length ''test_'') testmodule"
    using startswith_drop [OF s] .
  then have t: "testmodule = ''test_'' @ drop 5 testmodule"
    unfolding e .
  have "split_once (CHR ''_'') (''test_'' @ drop 5 testmodule) = [''test'', drop 5 testmodule]"
    by (simp add: split_once_def)
  then have p: "split_once (CHR ''_'') testmodule = [''test'', drop 5 testmodule]"
    using t by simp
  have c: "correlate_line filename (covered, uncovered, out) (linenum, line) =
         Inr (case map_of uncovered (drop 5 testmodule) of
                None \<Rightarrow> (covered, uncovered, out)
              | Some src \<Rightarrow>
                  (AList.update (drop 5 testmodule) (filename, linenum + 1, snd (snd src))
                     covered,
                   AList.delete (drop 5 testmodule) uncovered,
                   if filename = ''test_'' @ fst src then out
                   else out @ mismatch_warning (drop 5 testmodule) src filename linenum))"
    unfolding correlate_line_eq assms by (simp split: option.split)
  show ?thesis
    using t p split_once_startswith [OF s] c by blast
qed

lemma foo_bar_line: "test_module (''module test_foo_bar() { }'' @ [CHR 0x0A]) = Some ''test_foo_bar''"
  by code_simp

text \<open>
  A witness of C6: with \<open>foo\<close>, \<open>bar\<close> and \<open>foo_bar\<close> uncovered, the test module
  \<open>test_foo_bar\<close> covers \<open>foo_bar\<close> and nothing else.
\<close>

theorem test_target_witness:
  "test_module (''module test_foo_bar() { }'' @ [CHR 0x0A]) = Some ''test_foo_bar''
   \<and> split_once (CHR ''_'') ''test_foo_bar'' = [''test'', ''foo_bar'']
   \<and> index (split_once (CHR ''_'') ''test_foo_bar'') 1 = Inr ''foo_bar''
   \<and> correlate_line ''test_a.scad''
        ([], [(''foo'', ''a.scad'', 1, Module), (''bar'', ''a.scad'', 2, Function),
              (''foo_bar'', ''a.scad'', 3, Module)], [])
        (6, ''module test_foo_bar() { }'' @ [CHR 0x0A]) =
      Inr ([(''foo_bar'', ''test_a.scad'', 7, Module)],
           [(''foo'', ''a.scad'', 1, Module), (''bar'', ''a.scad'', 2, Function)], [])"
proof -
  let ?u = "[(''foo'', ''a.scad'', 1::nat, Module), (''bar'', ''a.scad'', 2, Function),
      (''foo_bar'', ''a.scad'', 3, Module)]"
  have d: "drop 5 ''test_foo_bar'' = ''foo_bar''"
    by simp
  have m: "map_of ?u ''foo_bar'' = Some (''a.scad'', 3, Module)"
    by simp
  have n: "(6::nat) + 1 = 7"
    by simp
  have u: "AList.update ''foo_bar'' (''test_a.scad'', 7::nat, Module) []
      = [(''foo_bar'', ''test_a.scad'', 7, Module)]"
    by simp
  have r: "AList.delete ''foo_bar'' ?u
      = [(''foo'', ''a.scad'', 1, Module), (''bar'', ''a.scad'', 2, Function)]"
    by (simp add: AList.delete_eq)
  have f: "(''test_a.scad'' = ''test_'' @ ''a.scad'') = True"
    by simp
  show ?thesis
    using foo_bar_line test_target [OF foo_bar_line, of "''test_a.scad''" "[]" ?u "[]" 6]
    unfolding d m n option.case fst_conv snd_conv u r f if_True by blast
qed

text \<open>
  C7: when a test module targets an uncovered name and the test file is not named
  \<open>test_\<close> followed by the name of the source file, the two lines of the mismatch warning
  are printed, and the name is all the same recorded in \<open>covered\<close>, with the test's file
  and line, and removed from \<open>uncovered\<close>.
\<close>

theorem mismatch_still_covers:
  assumes "test_module line = Some testmodule"
    and "map_of uncovered (drop 5 testmodule) = Some src"
    and "filename \<noteq> ''test_'' @ fst src"
  shows "\<exists>covered' uncovered'.
     correlate_line filename (covered, uncovered, out) (linenum, line) =
       Inr (covered', uncovered',
            out @ [''WARNING!!! '' @ capitalize (snd (snd src)) @ '' '' @ drop 5 testmodule
                     @ '' defined at '' @ fst src @ '':'' @ digits (fst (snd src)),
                   ''           but tested at '' @ filename @ '':'' @ digits (linenum + 1)])
     \<and> map_of covered' (drop 5 testmodule) = Some (filename, linenum + 1, snd (snd src))
     \<and> map_of uncovered' (drop 5 testmodule) = None
     \<and> keys uncovered' = removeAll (drop 5 testmodule) (keys uncovered)"
proof -
  let ?k = "drop 5 testmodule"
  let ?c = "AList.update ?k (filename, linenum + 1, snd (snd src)) covered"
  let ?u = "AList.delete ?k uncovered"
  have "correlate_line filename (covered, uncovered, out) (linenum, line) =
       Inr (?c, ?u,
            out @ [''WARNING!!! '' @ capitalize (snd (snd src)) @ '' '' @ drop 5 testmodule
                     @ '' defined at '' @ fst src @ '':'' @ digits (fst (snd src)),
                   ''           but tested at '' @ filename @ '':'' @ digits (linenum + 1)])"
    using assms by (simp add: correlate_line_eq mismatch_warning_def)
  moreover have "map_of ?c ?k = Some (filename, linenum + 1, snd (snd src))"
    by (simp add: update_conv')
  moreover have "map_of ?u ?k = None"
    by (simp add: delete_conv')
  moreover have "keys ?u = removeAll ?k (keys uncovered)"
    by (rule keys_delete)
  ultimately show ?thesis
    by blast
qed


lemma test_box_line:
  "test_module (''module test_box() {'' @ [CHR 0x0A]) = Some ''test_box''"
  by code_simp

lemma digits_small: "digits 3 = ''3''" "digits 2 = ''2''"
  by code_simp+

theorem mismatch_still_covers_witness:
  "test_module (''module test_box() {'' @ [CHR 0x0A]) = Some ''test_box''
   \<and> map_of [(''box'', ''shapes.scad'', 3::nat, Module), (''area'', ''shapes.scad'', 10, Function)]
        (drop 5 ''test_box'') = Some (''shapes.scad'', 3, Module)
   \<and> ''test_other.scad'' \<noteq> ''test_'' @ fst (''shapes.scad'', 3::nat, Module)
   \<and> (\<exists>covered' uncovered'.
        correlate_line ''test_other.scad''
          ([], [(''box'', ''shapes.scad'', 3, Module), (''area'', ''shapes.scad'', 10, Function)], [])
          (1, ''module test_box() {'' @ [CHR 0x0A]) =
        Inr (covered', uncovered',
             [''WARNING!!! Module box defined at shapes.scad:3'',
              ''           but tested at test_other.scad:2''])
        \<and> map_of covered' ''box'' = Some (''test_other.scad'', 2, Module)
        \<and> map_of uncovered' ''box'' = None
        \<and> keys uncovered' = [''area''])"
proof -
  let ?u = "[(''box'', ''shapes.scad'', 3::nat, Module), (''area'', ''shapes.scad'', 10, Function)]"
  have a: "test_module (''module test_box() {'' @ [CHR 0x0A]) = Some ''test_box''"
    by (rule test_box_line)
  have b: "map_of ?u (drop 5 ''test_box'') = Some (''shapes.scad'', 3, Module)"
    by simp
  have c: "''test_other.scad'' \<noteq> ''test_'' @ fst (''shapes.scad'', 3::nat, Module)"
    by simp
  have d: "drop 5 ''test_box'' = ''box''"
    by simp
  have k: "removeAll ''box'' (keys ?u) = [''area'']"
    by (simp add: keys_def)
  have n: "(1::nat) + 1 = 2"
    by simp
  have w: "[] @ [''WARNING!!! '' @ capitalize Module @ '' '' @ ''box''
                     @ '' defined at '' @ ''shapes.scad'' @ '':'' @ ''3'',
                   ''           but tested at '' @ ''test_other.scad'' @ '':'' @ ''2'']
      = [''WARNING!!! Module box defined at shapes.scad:3'',
         ''           but tested at test_other.scad:2'']"
    by simp
  have "\<exists>covered' uncovered'.
        correlate_line ''test_other.scad'' ([], ?u, []) (1, ''module test_box() {'' @ [CHR 0x0A]) =
        Inr (covered', uncovered',
             [''WARNING!!! Module box defined at shapes.scad:3'',
              ''           but tested at test_other.scad:2''])
        \<and> map_of covered' ''box'' = Some (''test_other.scad'', 2, Module)
        \<and> map_of uncovered' ''box'' = None
        \<and> keys uncovered' = [''area'']"
    using mismatch_still_covers [OF a b c, of "[]" "[]" 1]
    unfolding d fst_conv snd_conv k n digits_small w .
  then show ?thesis
    using a b c by blast
qed

subsection \<open>The order of the report\<close>

text \<open>
  C8: the report prints, after the header, the blocks of the groups of uncovered items,
  one group for each source file; the groups are printed in ascending order of their
  number of items, and the items of a group in ascending order of their names. A block is
  the summary line of the group, with that number, and one line for each item, in the
  order of the group.
\<close>

theorem report_order:
  "\<exists>covered uncovered out.
     correlated src tests = Inr (covered, uncovered, out)
     \<and> run src tests =
        (if length (fst (collected src)) = 0
         then Inl (ZeroDivisionError,
                   out @ [''NOT COVERED:''] @ concat (map group_block (report_groups uncovered)))
         else Inr (out @ [''NOT COVERED:''] @ concat (map group_block (report_groups uncovered))
                   @ [total_line (length covered) (length (fst (collected src)))]))
     \<and> sorted (map (\<lambda>g. length (snd g)) (report_groups uncovered))
     \<and> (\<forall>g \<in> set (report_groups uncovered). sorted_wrt (<) (map fst (snd g)))
     \<and> (\<Union>g \<in> set (report_groups uncovered). fst ` set (snd g)) = set (keys uncovered)"
proof -
  obtain covered uncovered out ubf where
    c: "correlated src tests = Inr (covered, uncovered, out)"
    and g: "groups_inv uncovered ubf (set (keys uncovered)) []"
    and rg: "report_groups uncovered = printed_groups ubf"
    and r: "run src tests =
        (if length (fst (collected src)) = 0
         then Inl (ZeroDivisionError,
                   out @ [''NOT COVERED:''] @ concat (map group_block (printed_groups ubf)))
         else Inr (out @ [''NOT COVERED:''] @ concat (map group_block (printed_groups ubf))
                   @ [total_line (length covered) (length (fst (collected src)))]))"
    using run_eq by blast
  have s: "set (printed_groups ubf) = set ubf"
    by (simp add: printed_groups_def)
  have o1: "sorted (map (\<lambda>g. length (snd g)) (printed_groups ubf))"
    unfolding printed_groups_def by (rule sorted_sort_key)
  have o2: "\<forall>g \<in> set (printed_groups ubf). sorted_wrt (<) (map fst (snd g))"
    using g unfolding s by (simp add: groups_inv_def)
  have o3: "(\<Union>g \<in> set (printed_groups ubf). fst ` set (snd g)) = set (keys uncovered)"
    using g unfolding s by (simp add: groups_inv_def)
  show ?thesis
    using c r o1 o2 o3 unfolding rg [symmetric] by blast
qed

lemma correlated_two:
  "correlated [internal_scad, shapes_scad] [] =
     Inr ([],
          [([], ''internal.scad'', 2, Module), (''zed'', ''internal.scad'', 3, Module),
           (''abc'', ''internal.scad'', 4, Function), (''box'', ''shapes.scad'', 3, Module),
           (''area'', ''shapes.scad'', 10, Function)],
          [])"
  by code_simp

lemma report_groups_two:
  "report_groups
     [([], ''internal.scad'', 2, Module), (''zed'', ''internal.scad'', 3, Module),
      (''abc'', ''internal.scad'', 4, Function), (''box'', ''shapes.scad'', 3, Module),
      (''area'', ''shapes.scad'', 10, Function)] =
     [(''shapes.scad'', [(''area'', Function), (''box'', Module)]),
      (''internal.scad'', [([], Module), (''abc'', Function), (''zed'', Module)])]"
  by code_simp

theorem report_order_witness:
  "sorted (map (\<lambda>g. length (snd g))
       [(''shapes.scad'', [(''area'', Function), (''box'', Module)]),
        (''internal.scad'', [([], Module), (''abc'', Function), (''zed'', Module)])])
   \<and> sorted_wrt (<) (map fst [(''area'', Function), (''box'', Module)])
   \<and> sorted_wrt (<) (map fst [([], Module), (''abc'', Function), (''zed'', Module)])
   \<and> (\<exists>total. run [internal_scad, shapes_scad] [] =
         Inr ([''NOT COVERED:'',
               ''  shapes.scad: 2 uncovered items'',
               ''    function area'',
               ''    module box'',
               ''  internal.scad: 3 uncovered items'',
               ''    module '',
               ''    function abc'',
               ''    module zed''] @ [total]))"
proof -
  have l: "length (fst (collected [internal_scad, shapes_scad])) = 5"
    by code_simp
  have b: "concat (map group_block
       [(''shapes.scad'', [(''area'', Function), (''box'', Module)]),
        (''internal.scad'', [([], Module), (''abc'', Function), (''zed'', Module)])]) =
      [''  shapes.scad: 2 uncovered items'',
       ''    function area'',
       ''    module box'',
       ''  internal.scad: 3 uncovered items'',
       ''    module '',
       ''    function abc'',
       ''    module zed'']"
    by code_simp
  obtain covered uncovered out where
    c: "Inr ([],
          [([], ''internal.scad'', 2, Module), (''zed'', ''internal.scad'', 3, Module),
           (''abc'', ''internal.scad'', 4, Function), (''box'', ''shapes.scad'', 3, Module),
           (''area'', ''shapes.scad'', 10, Function)],
          []) = (Inr (covered, uncovered, out) :: cstate result)"
    and r: "run [internal_scad, shapes_scad] [] =
        (if (5::nat) = 0
         then Inl (ZeroDivisionError,
                   out @ [''NOT COVERED:''] @ concat (map group_block (report_groups uncovered)))
         else Inr (out @ [''NOT COVERED:''] @ concat (map group_block (report_groups uncovered))
                   @ [total_line (length covered) 5]))"
    and o1: "sorted (map (\<lambda>g. length (snd g)) (report_groups uncovered))"
    and o2: "\<forall>g \<in> set (report_groups uncovered). sorted_wrt (<) (map fst (snd g))"
    using report_order [of "[internal_scad, shapes_scad]" "[]"]
    unfolding correlated_two l by blast
  have u: "uncovered = [([], ''internal.scad'', 2, Module), (''zed'', ''internal.scad'', 3, Module),
           (''abc'', ''internal.scad'', 4, Function), (''box'', ''shapes.scad'', 3, Module),
           (''area'', ''shapes.scad'', 10, Function)]" and o: "out = []"
    using c by simp_all
  have "run [internal_scad, shapes_scad] [] =
      Inr ([''NOT COVERED:'',
               ''  shapes.scad: 2 uncovered items'',
               ''    function area'',
               ''    module box'',
               ''  internal.scad: 3 uncovered items'',
               ''    module '',
               ''    function abc'',
               ''    module zed''] @ [total_line (length covered) 5])"
    using r unfolding u o report_groups_two b by simp
  then show ?thesis
    using o1 o2 unfolding u report_groups_two by auto
qed


subsection \<open>The empty name\<close>

lemma declared_name_empty:
  assumes "marker = ''module '' \<or> marker = ''function ''"
    and "(\<forall>c \<in> set r. is_space c) \<or> (\<exists>r'. r = CHR ''('' # r')"
  shows "declared_name (marker @ r) = []"
proof -
  have n: "extract_name (length marker) (marker @ r) = []"
  proof (cases "\<forall>c \<in> set r. is_space c")
    case True
    then show ?thesis
      by (simp add: extract_name_blank)
  next
    case False
    then obtain r' where r: "r = CHR ''('' # r'"
      using assms(2) by blast
    have "extract_name (length marker) (marker @ [] @ CHR ''('' # r') = []"
      by (rule extract_name_paren) (simp_all add: strip_def)
    then show ?thesis
      by (simp add: r)
  qed
  show ?thesis
    using assms(1)
  proof
    assume m: "marker = ''module ''"
    have l: "length ''module '' = 7"
      by simp
    have e: "extract_name 7 (''module '' @ r) = []"
      using n unfolding m l .
    have "startswith (''module '' @ r) ''module ''"
      by (rule startswith_append)
    then show ?thesis
      unfolding declared_name_def m using e by simp
  next
    assume m: "marker = ''function ''"
    have l: "length ''function '' = 9"
      by simp
    have e: "extract_name 9 (''function '' @ r) = []"
      using n unfolding m l .
    have "\<not> startswith (''function '' @ r) ''module ''"
      by (simp add: startswith_def)
    then show ?thesis
      unfolding declared_name_def m using e by simp
  qed
qed

lemma test_module_empty: "test_module (''module test_('' @ r) = Some ''test_''"
proof -
  have "extract_name 7 (''module '' @ ''test_'' @ CHR ''('' # r) = ''test_''"
    by (rule extract_name_paren) (simp_all add: strip_def is_space_def)
  then have e: "extract_name 7 (''module test_('' @ r) = ''test_''"
    by simp
  have s: "startswith (''module test_('' @ r) ''module ''"
    by (simp add: startswith_def)
  show ?thesis
    unfolding test_module_def e using s by (simp add: startswith_def)
qed

text \<open>
  C9: a source line whose text after the marker is blank or begins with a parenthesis
  declares the empty name, which does not start with an underscore: after the line the
  registry has an entry for the empty name, a new one when it had none. A test module
  declared as \<open>module test_(\<close> has the name \<open>test_\<close>, so its target is the empty name,
  and it covers the entry. For a whole run: when such a line is in a source file, the
  empty name is in the registry after the first loop, the run ends normally, and the
  total of its aggregate line is one more than the number of the other names; when
  moreover a test file has a line \<open>module test_(\<close>, the empty name is covered and no
  longer uncovered after the second loop, and the covered count of the aggregate line
  is one more than the number of the other covered names.
\<close>

theorem empty_name:
  assumes "marker = ''module '' \<or> marker = ''function ''"
    and "(\<forall>c \<in> set r. is_space c) \<or> (\<exists>r'. r = CHR ''('' # r')"
  shows "qualifies (marker @ r) \<and> declared_name (marker @ r) = []
     \<and> \<not> startswith [] ''_''
     \<and> (\<exists>e. map_of (fst (collect_line filename (items, out) (linenum, marker @ r))) [] = Some e)
     \<and> (map_of items [] = None \<longrightarrow>
          collect_line filename (items, out) (linenum, marker @ r) =
            (items @ [([], filename, linenum + 1, declared_type (marker @ r))], out))
     \<and> test_module (''module test_('' @ r2) = Some ''test_''
     \<and> drop 5 ''test_'' = []
     \<and> (map_of uncovered [] = Some src \<longrightarrow>
          (\<exists>covered' uncovered' out'.
             correlate_line tfile (covered, uncovered, tout) (tnum, ''module test_('' @ r2) =
               Inr (covered', uncovered', out')
             \<and> map_of covered' [] = Some (tfile, tnum + 1, snd (snd src))
             \<and> map_of uncovered' [] = None))
     \<and> ((sfile, slines) \<in> set srcs \<and> endswith sfile ''.scad'' \<and> marker @ r \<in> set slines \<longrightarrow>
          [] \<in> set (keys (fst (collected srcs)))
          \<and> length (fst (collected srcs))
              = Suc (length (filter (\<lambda>k. k \<noteq> []) (keys (fst (collected srcs)))))
          \<and> (\<exists>cov uncov wout printed.
                correlated srcs tests = Inr (cov, uncov, wout)
                \<and> run srcs tests =
                    Inr (printed @ [total_line (length cov) (length (fst (collected srcs)))])
                \<and> ((testfile, tlines) \<in> set tests \<and> startswith testfile ''test_''
                      \<and> endswith testfile ''.scad'' \<and> ''module test_('' @ r2 \<in> set tlines \<longrightarrow>
                    [] \<in> set (keys cov) \<and> [] \<notin> set (keys uncov)
                    \<and> length cov = Suc (length (filter (\<lambda>k. k \<noteq> []) (keys cov))))))"
proof -
  let ?line = "marker @ r"
  have q: "qualifies ?line"
    using assms(1) by (auto simp: qualifies_def startswith_def)
  have n: "declared_name ?line = []"
    using assms by (rule declared_name_empty)
  have u: "\<not> startswith [] ''_''"
    by (simp add: startswith_def)
  have step: "collect_line filename (items, out) (linenum, ?line) =
      (case map_of items [] of
         Some prev \<Rightarrow>
           (items, out @ redefined_warning (declared_type ?line) [] filename linenum prev)
       | None \<Rightarrow> (AList.update [] (filename, linenum + 1, declared_type ?line) items, out))"
    using q u by (simp add: collect_line_eq n cong: option.case_cong)
  have a: "\<exists>e. map_of (fst (collect_line filename (items, out) (linenum, ?line))) [] = Some e"
    unfolding step by (cases "map_of items []") (auto simp: update_conv')
  have b: "map_of items [] = None \<longrightarrow>
      collect_line filename (items, out) (linenum, ?line) =
        (items @ [([], filename, linenum + 1, declared_type ?line)], out)"
  proof
    assume none: "map_of items [] = None"
    then have "[] \<notin> fst ` set items"
      by (simp add: map_of_eq_None_iff)
    then have "AList.update [] (filename, linenum + 1, declared_type ?line) items
        = items @ [([], filename, linenum + 1, declared_type ?line)]"
      by (induction items) auto
    then show "collect_line filename (items, out) (linenum, ?line) =
        (items @ [([], filename, linenum + 1, declared_type ?line)], out)"
      unfolding step using none by simp
  qed
  have t: "test_module (''module test_('' @ r2) = Some ''test_''"
    by (rule test_module_empty)
  have d: "drop 5 ''test_'' = []"
    by simp
  have c: "map_of uncovered [] = Some src \<longrightarrow>
      (\<exists>covered' uncovered' out'.
         correlate_line tfile (covered, uncovered, tout) (tnum, ''module test_('' @ r2) =
           Inr (covered', uncovered', out')
         \<and> map_of covered' [] = Some (tfile, tnum + 1, snd (snd src))
         \<and> map_of uncovered' [] = None)"
  proof
    assume some: "map_of uncovered [] = Some src"
    have "correlate_line tfile (covered, uncovered, tout) (tnum, ''module test_('' @ r2) =
        Inr (AList.update [] (tfile, tnum + 1, snd (snd src)) covered,
             AList.delete [] uncovered,
             if tfile \<noteq> ''test_'' @ fst src
             then tout @ mismatch_warning [] src tfile tnum else tout)"
      unfolding correlate_line_eq t using some by (simp add: d)
    moreover have "map_of (AList.update [] (tfile, tnum + 1, snd (snd src)) covered) []
        = Some (tfile, tnum + 1, snd (snd src))"
      by (simp add: update_conv')
    moreover have "map_of (AList.delete [] uncovered) [] = None"
      by (simp add: delete_conv')
    ultimately show "\<exists>covered' uncovered' out'.
         correlate_line tfile (covered, uncovered, tout) (tnum, ''module test_('' @ r2) =
           Inr (covered', uncovered', out')
         \<and> map_of covered' [] = Some (tfile, tnum + 1, snd (snd src))
         \<and> map_of uncovered' [] = None"
      by blast
  qed
  have w: "(sfile, slines) \<in> set srcs \<and> endswith sfile ''.scad'' \<and> ?line \<in> set slines \<longrightarrow>
          [] \<in> set (keys (fst (collected srcs)))
          \<and> length (fst (collected srcs))
              = Suc (length (filter (\<lambda>k. k \<noteq> []) (keys (fst (collected srcs)))))
          \<and> (\<exists>cov uncov wout printed.
                correlated srcs tests = Inr (cov, uncov, wout)
                \<and> run srcs tests =
                    Inr (printed @ [total_line (length cov) (length (fst (collected srcs)))])
                \<and> ((testfile, tlines) \<in> set tests \<and> startswith testfile ''test_''
                      \<and> endswith testfile ''.scad'' \<and> ''module test_('' @ r2 \<in> set tlines \<longrightarrow>
                    [] \<in> set (keys cov) \<and> [] \<notin> set (keys uncov)
                    \<and> length cov = Suc (length (filter (\<lambda>k. k \<noteq> []) (keys cov)))))"
  proof
    assume h: "(sfile, slines) \<in> set srcs \<and> endswith sfile ''.scad'' \<and> ?line \<in> set slines"
    have nu: "\<not> startswith (declared_name ?line) ''_''"
      unfolding n by (rule u)
    have "declared_name ?line \<in> set (keys (fst (collected srcs)))"
      using h q nu by (blast intro: collected_registers)
    then have reg: "[] \<in> set (keys (fst (collected srcs)))"
      unfolding n .
    have dist: "distinct (keys (fst (collected srcs)))"
      using collected_inv [of srcs] by (simp add: collect_inv_def)
    have tot: "length (fst (collected srcs))
        = Suc (length (filter (\<lambda>k. k \<noteq> []) (keys (fst (collected srcs)))))"
      using dist reg by (rule length_counts)
    then have ne: "length (fst (collected srcs)) \<noteq> 0"
      by simp
    obtain cov uncov wout ubf where
      cr: "correlated srcs tests = Inr (cov, uncov, wout)"
      and pi: "partition_inv (fst (collected srcs)) (cov, uncov, wout)"
      and rn: "run srcs tests =
        (if length (fst (collected srcs)) = 0
         then Inl (ZeroDivisionError,
                   wout @ [''NOT COVERED:''] @ concat (map group_block (printed_groups ubf)))
         else Inr (wout @ [''NOT COVERED:''] @ concat (map group_block (printed_groups ubf))
                   @ [total_line (length cov) (length (fst (collected srcs)))]))"
      using run_eq by blast
    have rn': "run srcs tests =
        Inr ((wout @ [''NOT COVERED:''] @ concat (map group_block (printed_groups ubf)))
             @ [total_line (length cov) (length (fst (collected srcs)))])"
      using rn ne by simp
    have cv: "(testfile, tlines) \<in> set tests \<and> startswith testfile ''test_''
          \<and> endswith testfile ''.scad'' \<and> ''module test_('' @ r2 \<in> set tlines \<longrightarrow>
        [] \<in> set (keys cov) \<and> [] \<notin> set (keys uncov)
        \<and> length cov = Suc (length (filter (\<lambda>k. k \<noteq> []) (keys cov)))"
    proof
      assume g: "(testfile, tlines) \<in> set tests \<and> startswith testfile ''test_''
          \<and> endswith testfile ''.scad'' \<and> ''module test_('' @ r2 \<in> set tlines"
      have reg': "drop 5 ''test_'' \<in> set (keys (fst (collected srcs)))"
        unfolding d by (rule reg)
      have "drop 5 ''test_'' \<in> set (keys (fst (cov, uncov, wout)))"
        using g t reg' cr by (blast intro: correlated_covers)
      then have in_cov: "[] \<in> set (keys cov)"
        unfolding d fst_conv .
      then have not_uncov: "[] \<notin> set (keys uncov)"
        using pi by (auto simp: partition_inv_def)
      have "distinct (keys cov)"
        using pi by (simp add: partition_inv_def)
      then have "length cov = Suc (length (filter (\<lambda>k. k \<noteq> []) (keys cov)))"
        using in_cov by (rule length_counts)
      then show "[] \<in> set (keys cov) \<and> [] \<notin> set (keys uncov)
          \<and> length cov = Suc (length (filter (\<lambda>k. k \<noteq> []) (keys cov)))"
        using in_cov not_uncov by blast
    qed
    show "[] \<in> set (keys (fst (collected srcs)))
          \<and> length (fst (collected srcs))
              = Suc (length (filter (\<lambda>k. k \<noteq> []) (keys (fst (collected srcs)))))
          \<and> (\<exists>cov uncov wout printed.
                correlated srcs tests = Inr (cov, uncov, wout)
                \<and> run srcs tests =
                    Inr (printed @ [total_line (length cov) (length (fst (collected srcs)))])
                \<and> ((testfile, tlines) \<in> set tests \<and> startswith testfile ''test_''
                      \<and> endswith testfile ''.scad'' \<and> ''module test_('' @ r2 \<in> set tlines \<longrightarrow>
                    [] \<in> set (keys cov) \<and> [] \<notin> set (keys uncov)
                    \<and> length cov = Suc (length (filter (\<lambda>k. k \<noteq> []) (keys cov)))))"
      using reg tot cr rn' cv by blast
  qed
  show ?thesis
    using q n u a b t d c w by blast
qed


lemma unnamed_type: "declared_type (''module '' @ ''(size) { }'' @ [CHR 0x0A]) = Module"
  by code_simp

lemma total_internal: "total_line 1 3 = ''Total coverage: 1 of 3 items (33.33%)''"
  by code_simp

text \<open>
  A witness of C9: the unnamed module of \<open>internal.scad\<close> is one of the three items of
  the total, and \<open>module test_()\<close> of \<open>test_internal.scad\<close> covers it.
\<close>

theorem empty_name_witness:
  "(''module '' = ''module '' \<or> ''module '' = ''function '')
   \<and> (\<exists>r'. ''(size) { }'' @ [CHR 0x0A] = CHR ''('' # r')
   \<and> map_of ([] :: registry) [] = None
   \<and> map_of [([], ''internal.scad'', 2::nat, Module), (''zed'', ''internal.scad'', 3, Module)] []
      = Some (''internal.scad'', 2, Module)
   \<and> declared_name (''module '' @ ''(size) { }'' @ [CHR 0x0A]) = []
   \<and> collect_line ''internal.scad'' ([], []) (1, ''module '' @ ''(size) { }'' @ [CHR 0x0A])
      = ([([], ''internal.scad'', 2, Module)], [])
   \<and> test_module (''module test_('' @ '') { }'' @ [CHR 0x0A]) = Some ''test_''
   \<and> (\<exists>covered' uncovered' out'.
         correlate_line ''test_internal.scad''
           ([], [([], ''internal.scad'', 2, Module), (''zed'', ''internal.scad'', 3, Module)], [])
           (1, ''module test_('' @ '') { }'' @ [CHR 0x0A]) = Inr (covered', uncovered', out')
         \<and> map_of covered' [] = Some (''test_internal.scad'', 2, Module)
         \<and> map_of uncovered' [] = None)
   \<and> (''internal.scad'', snd internal_scad) \<in> set [internal_scad]
   \<and> endswith ''internal.scad'' ''.scad''
   \<and> ''module '' @ ''(size) { }'' @ [CHR 0x0A] \<in> set (snd internal_scad)
   \<and> (''test_internal.scad'', snd test_internal_scad) \<in> set [test_internal_scad]
   \<and> startswith ''test_internal.scad'' ''test_''
   \<and> endswith ''test_internal.scad'' ''.scad''
   \<and> ''module test_('' @ '') { }'' @ [CHR 0x0A] \<in> set (snd test_internal_scad)
   \<and> [] \<in> set (keys (fst (collected [internal_scad])))
   \<and> length (fst (collected [internal_scad])) = 3
   \<and> (\<exists>cov uncov wout printed.
         correlated [internal_scad] [test_internal_scad] = Inr (cov, uncov, wout)
         \<and> run [internal_scad] [test_internal_scad] =
             Inr (printed @ [''Total coverage: 1 of 3 items (33.33%)''])
         \<and> [] \<in> set (keys cov) \<and> [] \<notin> set (keys uncov) \<and> length cov = 1)"
proof -
  let ?r = "''(size) { }'' @ [CHR 0x0A]"
  let ?r2 = "'') { }'' @ [CHR 0x0A]"
  let ?u = "[([], ''internal.scad'', 2::nat, Module), (''zed'', ''internal.scad'', 3, Module)]"
  have h1: "''module '' = ''module '' \<or> ''module '' = ''function ''"
    by simp
  have h2: "(\<forall>c \<in> set ?r. is_space c) \<or> (\<exists>r'. ?r = CHR ''('' # r')"
    by simp
  have h2': "\<exists>r'. ?r = CHR ''('' # r'"
    by simp
  have h3: "map_of ([] :: registry) [] = None"
    by simp
  have h4: "map_of ?u [] = Some (''internal.scad'', 2, Module)"
    by simp
  have n: "(1::nat) + 1 = 2"
    by simp
  have s: "(''internal.scad'', snd internal_scad) \<in> set [internal_scad]
      \<and> endswith ''internal.scad'' ''.scad''
      \<and> ''module '' @ ?r \<in> set (snd internal_scad)"
    by (simp add: internal_scad_def text_lines_def endswith_def)
  have g: "(''test_internal.scad'', snd test_internal_scad) \<in> set [test_internal_scad]
      \<and> startswith ''test_internal.scad'' ''test_''
      \<and> endswith ''test_internal.scad'' ''.scad''
      \<and> ''module test_('' @ ?r2 \<in> set (snd test_internal_scad)"
    by (simp add: test_internal_scad_def text_lines_def startswith_def endswith_def)
  note t = empty_name [OF h1 h2, where filename = "''internal.scad''" and items = "[]"
      and out = "[]" and linenum = 1 and ?r2.0 = ?r2 and uncovered = ?u
      and src = "(''internal.scad'', 2, Module)" and tfile = "''test_internal.scad''"
      and covered = "[]" and tout = "[]" and tnum = 1
      and sfile = "''internal.scad''" and slines = "snd internal_scad"
      and srcs = "[internal_scad]" and tests = "[test_internal_scad]"
      and testfile = "''test_internal.scad''" and tlines = "snd test_internal_scad"]
  have step: "declared_name (''module '' @ ?r) = []
      \<and> collect_line ''internal.scad'' ([], []) (1, ''module '' @ ?r)
          = ([([], ''internal.scad'', 2, Module)], [])
      \<and> test_module (''module test_('' @ ?r2) = Some ''test_''
      \<and> (\<exists>covered' uncovered' out'.
           correlate_line ''test_internal.scad'' ([], ?u, []) (1, ''module test_('' @ ?r2)
             = Inr (covered', uncovered', out')
           \<and> map_of covered' [] = Some (''test_internal.scad'', 2, Module)
           \<and> map_of uncovered' [] = None)"
    using t h3 h4 unfolding n unnamed_type fst_conv snd_conv append_Nil by blast
  have "\<exists>cov uncov wout printed.
        correlated [internal_scad] [test_internal_scad] = Inr (cov, uncov, wout)
        \<and> run [internal_scad] [test_internal_scad] =
            Inr (printed @ [total_line (length cov) (length (fst (collected [internal_scad])))])
        \<and> [] \<in> set (keys cov) \<and> [] \<notin> set (keys uncov)"
    using t s g by blast
  then obtain cov uncov wout printed where
    cr: "correlated [internal_scad] [test_internal_scad] = Inr (cov, uncov, wout)"
    and rn: "run [internal_scad] [test_internal_scad] =
        Inr (printed @ [total_line (length cov) (length (fst (collected [internal_scad])))])"
    and cv: "[] \<in> set (keys cov)" "[] \<notin> set (keys uncov)"
    by blast
  have "cov = [([], ''test_internal.scad'', 2, Module)]"
    using cr unfolding correlated_internal by simp
  then have lc: "length cov = 1"
    by simp
  have lt: "length (fst (collected [internal_scad])) = 3"
    unfolding collected_internal by simp
  have rn': "run [internal_scad] [test_internal_scad] =
      Inr (printed @ [''Total coverage: 1 of 3 items (33.33%)''])"
    using rn unfolding lc lt total_internal .
  have reg: "[] \<in> set (keys (fst (collected [internal_scad])))"
    using t s by blast
  have last: "\<exists>cov uncov wout printed.
         correlated [internal_scad] [test_internal_scad] = Inr (cov, uncov, wout)
         \<and> run [internal_scad] [test_internal_scad] =
             Inr (printed @ [''Total coverage: 1 of 3 items (33.33%)''])
         \<and> [] \<in> set (keys cov) \<and> [] \<notin> set (keys uncov) \<and> length cov = 1"
    using cr rn' cv lc by blast
  show ?thesis
    using h1 h2' h3 h4 step s g reg lt last by blast
qed

end
